theory Spec2Isabelle
  imports Main "HOL-Library.AList"
begin

section \<open>JavaScript values\<close>

text \<open>
  A form builder for React: a reducer over \<open>{errors, fieldsValues, loadingInitialData}\<close>,
  a context that hands the state and \<open>dispatch\<close> to the fields, two accessors for one
  field, and a controller that loads initial values and collects the submitted ones
  (\<open>src/index.tsx\<close>). Field values are addressed by lodash paths such as
  \<open>address.city\<close> or \<open>items[0].name\<close>.

  The values that flow through the form state are primitives, plain objects and arrays.
  An object is the list of its own data properties in insertion order, read first match,
  so an entry behind an earlier entry of the same key is not a property of the object.
  An array carries its \<open>length\<close> and the list of its own properties, those named by
  indices and any other. Numbers are the integers. Values are trees: an object that is
  reachable in two ways is the subject of the store model further down.

  A plain object inherits the members of \<open>Object.prototype\<close>; a read that finds one
  yields a \<open>Native\<close> value, a built-in function or object of the host that is known by
  its name only. What lies inside a built-in, and which members the host gives to
  arrays, strings, numbers and booleans, is not described: a read or write that depends
  on it has no value in this model (\<open>None\<close>, or \<open>Unmodelled\<close> where the code could also
  throw).
\<close>

datatype jsval =
    Undefined
  | Null
  | Bool bool
  | Num int
  | Str string
  | Obj "(string \<times> jsval) list"
  | Arr nat "(string \<times> jsval) list"
  | Native string

type_synonym props = "(string \<times> jsval) list"

text \<open>
  How a call ends when it gives no value back: it throws a \<open>TypeError\<close> or a
  \<open>RangeError\<close>, or it depends on a part of the host that is not modelled, and what
  the code does there is left open.
\<close>

datatype stopped = TypeError | RangeError | Unmodelled

text \<open>JavaScript's \<open>ToBoolean\<close>, as used by \<open>||\<close>, \<open>&&\<close> and \<open>if\<close>.\<close>

fun truthy :: "jsval \<Rightarrow> bool" where
  "truthy Undefined = False"
| "truthy Null = False"
| "truthy (Bool b) = b"
| "truthy (Num n) = (n \<noteq> 0)"
| "truthy (Str s) = (s \<noteq> [])"
| "truthy (Obj ps) = True"
| "truthy (Arr n ps) = True"
| "truthy (Native f) = True"

text \<open>\<open>a || b\<close>\<close>

definition js_or :: "jsval \<Rightarrow> jsval \<Rightarrow> jsval" where
  "js_or a b = (if truthy a then a else b)"

text \<open>
  lodash \<open>isObject\<close>: the value is an object or a function (arrays and built-ins
  included), not a primitive.
\<close>

fun isObject :: "jsval \<Rightarrow> bool" where
  "isObject (Obj ps) = True"
| "isObject (Arr n ps) = True"
| "isObject (Native f) = True"
| "isObject v = False"

subsection \<open>Characters and array indices\<close>

definition is_digit :: "char \<Rightarrow> bool" where
  "is_digit c = (48 \<le> (of_char c :: nat) \<and> (of_char c :: nat) \<le> 57)"

text \<open>The class \<open>\w\<close> of a regular expression: letters, digits and underscore.\<close>

definition is_word_char :: "char \<Rightarrow> bool" where
  "is_word_char c =
     (let n = (of_char c :: nat)
      in (48 \<le> n \<and> n \<le> 57) \<or> (65 \<le> n \<and> n \<le> 90) \<or> (97 \<le> n \<and> n \<le> 122) \<or> n = 95)"

definition digits_value :: "string \<Rightarrow> int" where
  "digits_value s = foldl (\<lambda>n c. 10 * n + ((of_char c :: int) - 48)) 0 s"

text \<open>lodash \<open>reIsUint = /^(?:0|[1-9]\d*)$/\<close>\<close>

definition reIsUint :: "string \<Rightarrow> bool" where
  "reIsUint s = (s = ''0'' \<or> (s \<noteq> [] \<and> hd s \<noteq> CHR ''0'' \<and> list_all is_digit s))"

text \<open>lodash \<open>isIndex(value)\<close> for a string, with the default bound \<open>MAX_SAFE_INTEGER\<close>.\<close>

definition isIndex :: "string \<Rightarrow> bool" where
  "isIndex s = (reIsUint s \<and> digits_value s < 9007199254740991)"

text \<open>
  An array index in the sense of the language: a canonical numeral below \<open>2^32 - 1\<close>.
  Writing such a property may lengthen the array.
\<close>

definition array_index :: "string \<Rightarrow> bool" where
  "array_index s = (reIsUint s \<and> digits_value s < 4294967295)"

text \<open>
  A name that has the shape of an identifier. The members that a host gives to the
  prototypes of arrays, strings, numbers and booleans have such names, and which they
  are differs between hosts.
\<close>

definition identifier_like :: "string \<Rightarrow> bool" where
  "identifier_like s =
     (s \<noteq> [] \<and> \<not> is_digit (hd s) \<and> list_all (\<lambda>c. is_word_char c \<or> c = CHR ''$'') s)"

subsection \<open>Reading one property\<close>

text \<open>The string-named members of \<open>Object.prototype\<close>, which every plain object inherits.\<close>

definition Object_prototype_names :: "string list" where
  "Object_prototype_names =
     [''constructor'', ''__defineGetter__'', ''__defineSetter__'', ''hasOwnProperty'',
      ''__lookupGetter__'', ''__lookupSetter__'', ''isPrototypeOf'', ''propertyIsEnumerable'',
      ''toString'', ''valueOf'', ''__proto__'', ''toLocaleString'']"

text \<open>
  \<open>object[key]\<close> for a plain object with the own properties \<open>ps\<close>: the own property,
  else the inherited member of \<open>Object.prototype\<close>, else \<open>undefined\<close>.
\<close>

definition object_prop :: "props \<Rightarrow> string \<Rightarrow> jsval" where
  "object_prop ps k =
     (case map_of ps k of
        Some v \<Rightarrow> v
      | None \<Rightarrow> if k \<in> set Object_prototype_names then Native (''Object.prototype.'' @ k)
                else Undefined)"

text \<open>
  A key that is no own property of an array, a string, a number or a boolean: a name
  with the shape of an identifier may be a member of the host's prototype for it, and
  the read is not modelled; any other key reads \<open>undefined\<close>.
\<close>

definition host_member :: "string \<Rightarrow> jsval option" where
  "host_member k = (if identifier_like k then None else Some Undefined)"

text \<open>
  \<open>object[key]\<close>. An array owns its \<open>length\<close> and its listed properties; a string owns
  its \<open>length\<close> and its characters. Reading inside a built-in is not modelled. The
  callers test for \<open>null\<close> and \<open>undefined\<close> before they read.
\<close>

fun getProp :: "jsval \<Rightarrow> string \<Rightarrow> jsval option" where
  "getProp (Obj ps) k = Some (object_prop ps k)"
| "getProp (Arr n ps) k =
     (if k = ''length'' then Some (Num (int n))
      else (case map_of ps k of Some v \<Rightarrow> Some v | None \<Rightarrow> host_member k))"
| "getProp (Str s) k =
     (if k = ''length'' then Some (Num (int (length s)))
      else if reIsUint k \<and> digits_value k < int (length s)
        then Some (Str [s ! nat (digits_value k)])
      else host_member k)"
| "getProp (Num n) k = host_member k"
| "getProp (Bool b) k = host_member k"
| "getProp (Native f) k = None"
| "getProp Undefined k = Some Undefined"
| "getProp Null k = Some Undefined"

text \<open>
  \<open>key in Object(object)\<close> for a key that holds a dot or a bracket, as \<open>isKey\<close> asks it:
  no built-in member has such a name, so it is an own property or nothing.
\<close>

fun hasOwn :: "jsval \<Rightarrow> string \<Rightarrow> bool" where
  "hasOwn (Obj ps) k = (map_of ps k \<noteq> None)"
| "hasOwn (Arr n ps) k = (k = ''length'' \<or> map_of ps k \<noteq> None)"
| "hasOwn (Str s) k = (k = ''length'' \<or> (reIsUint k \<and> digits_value k < int (length s)))"
| "hasOwn v k = False"


subsection \<open>Writing one property\<close>

text \<open>
  The length that \<open>array.length = value\<close> sets: the value as a number must be an
  integer from \<open>0\<close> to \<open>2^32 - 1\<close>, else the assignment throws a \<open>RangeError\<close>. A string
  is read as a number when it is empty or an optional sign and decimal digits; the
  other spellings of numbers, and the conversion of objects, are not modelled.
\<close>

definition in_length_range :: "int \<Rightarrow> stopped + nat" where
  "in_length_range n = (if 0 \<le> n \<and> n \<le> 4294967295 then Inr (nat n) else Inl RangeError)"

fun to_length :: "jsval \<Rightarrow> stopped + nat" where
  "to_length (Num n) = in_length_range n"
| "to_length Undefined = Inl RangeError"
| "to_length Null = Inr 0"
| "to_length (Bool b) = Inr (if b then 1 else 0)"
| "to_length (Str s) =
     (if s = [] then Inr 0
      else if list_all is_digit s then in_length_range (digits_value s)
      else if hd s = CHR ''+'' \<and> tl s \<noteq> [] \<and> list_all is_digit (tl s)
        then in_length_range (digits_value (tl s))
      else if hd s = CHR ''-'' \<and> tl s \<noteq> [] \<and> list_all is_digit (tl s)
        then in_length_range (- digits_value (tl s))
      else Inl Unmodelled)"
| "to_length (Obj ps) = Inl Unmodelled"
| "to_length (Arr n ps) = Inl Unmodelled"
| "to_length (Native f) = Inl Unmodelled"

text \<open>
  lodash \<open>assignValue(object, key, value)\<close>: \<open>object[key] = value\<close>, skipped when the
  property is already there with that value. In a plain object the property keeps its
  place when it exists and is added last when it does not. In an array a write at an
  index at or beyond the length lengthens the array, and a write of \<open>length\<close> sets the
  length and drops the elements from there on, or throws. Writing into a built-in is
  not modelled. Writing to a primitive does nothing.
\<close>

fun assignValue :: "jsval \<Rightarrow> string \<Rightarrow> jsval \<Rightarrow> stopped + jsval" where
  "assignValue (Obj ps) k v = Inr (Obj (AList.update k v ps))"
| "assignValue (Arr n ps) k v =
     (if k = ''length'' then
        (case to_length v of
           Inl e \<Rightarrow> Inl e
         | Inr m \<Rightarrow>
             Inr (Arr m (filter (\<lambda>(key, x). \<not> (array_index key \<and> int m \<le> digits_value key)) ps)))
      else Inr (Arr (if array_index k then max n (nat (digits_value k) + 1) else n)
                  (AList.update k v ps)))"
| "assignValue (Native f) k v = Inl Unmodelled"
| "assignValue w k v = Inr w"

text \<open>A write of \<open>length\<close> into an array is the one write that does not store its value.\<close>

fun array_length_write :: "jsval \<Rightarrow> string \<Rightarrow> bool" where
  "array_length_write (Arr n ps) k = (k = ''length'')"
| "array_length_write obj k = False"

text \<open>The own enumerable properties that a spread \<open>{...x}\<close> copies.\<close>

fun decimal :: "nat \<Rightarrow> string" where
  "decimal n =
     (if n < 10 then [char_of (48 + n)]
      else decimal (n div 10) @ [char_of (48 + n mod 10)])"

declare decimal.simps [simp del]

fun string_props :: "nat \<Rightarrow> string \<Rightarrow> props" where
  "string_props i [] = []"
| "string_props i (c # cs) = (decimal i, Str [c]) # string_props (Suc i) cs"

fun spread :: "jsval \<Rightarrow> props" where
  "spread (Obj ps) = AList.clearjunk ps"
| "spread (Arr n ps) = AList.clearjunk ps"
| "spread (Str s) = string_props 0 s"
| "spread v = []"

text \<open>\<open>{...a, ...b}\<close>: the properties of \<open>a\<close>, then each property of \<open>b\<close> written over them.\<close>

definition merge_props :: "props \<Rightarrow> props \<Rightarrow> props" where
  "merge_props a b = fold (\<lambda>(k, v). AList.update k v) b a"

section \<open>lodash paths\<close>

text \<open>
  \<open>set\<close> and \<open>get\<close> are imported from lodash (line 1 of the source). Their model
  follows lodash 4.17.21: \<open>castPath\<close>, \<open>isKey\<close>, \<open>stringToPath\<close>, \<open>baseGet\<close> and
  \<open>baseSet\<close>.
\<close>

definition is_special :: "char \<Rightarrow> bool" where
  "is_special c = (c = CHR ''.'' \<or> c = CHR ''['' \<or> c = CHR '']'')"

definition is_bracket :: "char \<Rightarrow> bool" where
  "is_bracket c = (c = CHR ''['' \<or> c = CHR '']'')"

definition is_quote :: "char \<Rightarrow> bool" where
  "is_quote c = (c = CHR 0x22 \<or> c = CHR 0x27)"

definition is_line_terminator :: "char \<Rightarrow> bool" where
  "is_line_terminator c = (c = CHR 0x0A \<or> c = CHR 0x0D)"

text \<open>
  The quoted part \<open>((?:(?!\2)[^\\]|\\.)*?)\2\]\<close> of a bracket, read after the opening
  quote \<open>q\<close>: the characters up to the closing quote, which \<open>]\<close> must follow, and the
  text after that \<open>]\<close>. A backslash takes the next character with it.
\<close>

fun quoted_body :: "char \<Rightarrow> string \<Rightarrow> (string \<times> string) option" where
  "quoted_body q [] = None"
| "quoted_body q (c # cs) =
     (if c = q then
        (case cs of
           d # rest \<Rightarrow> if d = CHR '']'' then Some ([], rest) else None
         | [] \<Rightarrow> None)
      else if c = CHR 0x5C then
        (case cs of
           d # rest \<Rightarrow>
             if is_line_terminator d then None
             else map_option (\<lambda>(body, r). (c # d # body, r)) (quoted_body q rest)
         | [] \<Rightarrow> None)
      else map_option (\<lambda>(body, r). (c # body, r)) (quoted_body q cs))"

text \<open>\<open>subString.replace(/\\(\\)?/g, '$1')\<close>: a backslash goes, a doubled one stays once.\<close>

fun unescape :: "string \<Rightarrow> string" where
  "unescape [] = []"
| "unescape [c] = (if c = CHR 0x5C then [] else [c])"
| "unescape (c # d # cs) =
     (if c = CHR 0x5C then (if d = CHR 0x5C then d # unescape cs else unescape (d # cs))
      else c # unescape (d # cs))"

text \<open>
  The number part \<open>(-?\d+(?:\.\d+)?)\]\<close> of a bracket, read after \<open>[\<close>: the number as
  written and the text after the closing \<open>]\<close>.
\<close>

definition bracket_number :: "string \<Rightarrow> (string \<times> string) option" where
  "bracket_number s =
     (let sign = (if s \<noteq> [] \<and> hd s = CHR ''-'' then ''-'' else []);
          s1 = drop (length sign) s;
          ds = takeWhile is_digit s1;
          s2 = dropWhile is_digit s1;
          fs = (case s2 of
                  c # r \<Rightarrow> if c = CHR ''.'' \<and> takeWhile is_digit r \<noteq> []
                           then c # takeWhile is_digit r else []
                | [] \<Rightarrow> []);
          s3 = drop (length fs) s2
      in if ds = [] then None
         else (case s3 of
                 c # rest \<Rightarrow> if c = CHR '']'' then Some (sign @ ds @ fs, rest) else None
               | [] \<Rightarrow> None))"

text \<open>The second alternative of \<open>rePropName\<close>, read after \<open>[\<close>: the key and the rest.\<close>

definition bracket_key :: "string \<Rightarrow> (string \<times> string) option" where
  "bracket_key s =
     (case bracket_number s of
        Some r \<Rightarrow> Some r
      | None \<Rightarrow>
          (case s of
             q # cs \<Rightarrow>
               if is_quote q then map_option (\<lambda>(body, r). (unescape body, r)) (quoted_body q cs)
               else None
           | [] \<Rightarrow> None))"

text \<open>\<open>(?:\.|\[\])\<close> at the head of the text, and what follows it.\<close>

fun separator :: "string \<Rightarrow> string option" where
  "separator (c # cs) =
     (if c = CHR ''.'' then Some cs
      else if c = CHR ''['' then
        (case cs of d # rest \<Rightarrow> if d = CHR '']'' then Some rest else None | [] \<Rightarrow> None)
      else None)"
| "separator [] = None"

text \<open>The third alternative, the lookahead \<open>(?=(?:\.|\[\])(?:\.|\[\]|$))\<close>.\<close>

definition empty_key_here :: "string \<Rightarrow> bool" where
  "empty_key_here s =
     (case separator s of
        Some r \<Rightarrow> r = [] \<or> separator r \<noteq> None
      | None \<Rightarrow> False)"

lemma quoted_body_length:
  "quoted_body q s = Some (body, r) \<Longrightarrow> length body + length r < length s"
proof (induction q s arbitrary: body r rule: quoted_body.induct)
  case (1 q)
  then show ?case by simp
next
  case (2 q c cs)
  then show ?case
    by (fastforce split: if_splits list.splits)
qed

lemma unescape_length: "length (unescape s) \<le> length s"
  by (induction s rule: unescape.induct) auto

lemma bracket_number_length:
  assumes "bracket_number s = Some (k, r)"
  shows "length k + length r < length s"
proof -
  define sign where "sign = (if s \<noteq> [] \<and> hd s = CHR ''-'' then ''-'' else [])"
  define s1 where "s1 = drop (length sign) s"
  define ds where "ds = takeWhile is_digit s1"
  define s2 where "s2 = dropWhile is_digit s1"
  define fs where "fs = (case s2 of
                  c # r \<Rightarrow> if c = CHR ''.'' \<and> takeWhile is_digit r \<noteq> []
                           then c # takeWhile is_digit r else []
                | [] \<Rightarrow> [])"
  define s3 where "s3 = drop (length fs) s2"
  have a: "length sign \<le> length s" by (cases s) (auto simp add: sign_def)
  then have l1: "length s = length sign + length s1" by (simp add: s1_def)
  have l2: "length s1 = length ds + length s2"
    unfolding ds_def s2_def by (metis length_append takeWhile_dropWhile_id)
  have "length fs \<le> length s2"
    unfolding fs_def by (cases s2) (auto simp add: length_takeWhile_le)
  then have l3: "length s2 = length fs + length s3" by (simp add: s3_def)
  from assms have "s3 = CHR '']'' # r \<and> k = sign @ ds @ fs"
    unfolding bracket_number_def Let_def sign_def [symmetric] s1_def [symmetric]
      ds_def [symmetric] s2_def [symmetric] fs_def [symmetric] s3_def [symmetric]
    by (auto split: if_splits list.splits)
  then show ?thesis using l1 l2 l3 by simp
qed

lemma bracket_key_length:
  assumes "bracket_key s = Some (k, r)"
  shows "length k + length r < length s"
proof (cases "bracket_number s")
  case (Some a)
  then show ?thesis using assms bracket_number_length [of s k r] by (simp add: bracket_key_def)
next
  case None
  then obtain q cs body where s: "s = q # cs" and b: "quoted_body q cs = Some (body, r)"
    and k: "k = unescape body"
    using assms by (auto simp add: bracket_key_def split: list.splits if_splits)
  show ?thesis using quoted_body_length [OF b] unescape_length [of body] s k by simp
qed

text \<open>
  \<open>string.replace(rePropName, ...)\<close> with the global expression
  \<open>/[^.[\]]+|\[(?:(-?\d+(?:\.\d+)?)|(["'])((?:(?!\2)[^\\]|\\.)*?)\2)\]|(?=(?:\.|\[\])(?:\.|\[\]|$))/g\<close>:
  the keys pushed by the matches from left to right. At each position the alternatives
  are tried in order: a run of characters other than \<open>.\<close>, \<open>[\<close> and \<open>]\<close>; a bracket
  holding a number or a quoted string; the empty match, which pushes the empty key and
  moves one character on. Where none matches, the search moves one character on.
\<close>

function scan_keys :: "string \<Rightarrow> string list" where
  "scan_keys [] = []"
| "scan_keys (c # cs) =
     (if \<not> is_special c then
        (c # takeWhile (\<lambda>x. \<not> is_special x) cs) # scan_keys (dropWhile (\<lambda>x. \<not> is_special x) cs)
      else
        (case (if c = CHR ''['' then bracket_key cs else None) of
           Some (k, rest) \<Rightarrow> k # scan_keys rest
         | None \<Rightarrow> if empty_key_here (c # cs) then [] # scan_keys cs else scan_keys cs))"
  by pat_completeness auto
termination
proof (relation "measure length")
  show "wf (measure length)" by simp
next
  fix c :: char and cs :: string
  show "(dropWhile (\<lambda>x. \<not> is_special x) cs, c # cs) \<in> measure length"
    using length_dropWhile_le [of "\<lambda>x. \<not> is_special x" cs] by simp
next
  fix c :: char and cs :: string and x2 :: "string \<times> string" and x y
  assume "(if c = CHR ''['' then bracket_key cs else None) = Some x2" and "(x, y) = x2"
  then have "bracket_key cs = Some (x, y)" by (simp split: if_splits)
  then show "(y, c # cs) \<in> measure length"
    using bracket_key_length by fastforce
qed simp_all

text \<open>lodash \<open>stringToPath\<close>: a leading dot pushes an empty key first.\<close>

definition stringToPath :: "string \<Rightarrow> string list" where
  "stringToPath s =
     (if s \<noteq> [] \<and> hd s = CHR ''.'' then [[]] else []) @ scan_keys s"

text \<open>\<open>reIsPlainProp = /^\w*$/\<close>\<close>

definition reIsPlainProp :: "string \<Rightarrow> bool" where
  "reIsPlainProp s = list_all is_word_char s"

text \<open>
  \<open>reIsDeepProp = /\.|\[(?:[^[\]]*|(["'])(?:(?!\1)[^\\]|\\.)*?\1)\]/\<close>: the text holds a
  dot, or a \<open>[\<close> that is closed by a \<open>]\<close> with no bracket between them or after a quoted
  string.
\<close>

fun reIsDeepProp :: "string \<Rightarrow> bool" where
  "reIsDeepProp [] = False"
| "reIsDeepProp (c # cs) =
     (c = CHR ''.''
      \<or> (c = CHR ''[''
          \<and> ((case dropWhile (\<lambda>x. \<not> is_bracket x) cs of
                 d # rest \<Rightarrow> d = CHR '']''
               | [] \<Rightarrow> False)
              \<or> (case cs of
                    q # body \<Rightarrow> is_quote q \<and> quoted_body q body \<noteq> None
                  | [] \<Rightarrow> False)))
      \<or> reIsDeepProp cs)"

text \<open>lodash \<open>isKey(value, object)\<close> for a string: the whole string is one property name.\<close>

definition isKey :: "string \<Rightarrow> jsval \<Rightarrow> bool" where
  "isKey s object = (reIsPlainProp s \<or> \<not> reIsDeepProp s \<or> hasOwn object s)"

text \<open>lodash \<open>castPath(value, object)\<close> for a string.\<close>

definition castPath :: "string \<Rightarrow> jsval \<Rightarrow> string list" where
  "castPath s object = (if isKey s object then [s] else stringToPath s)"

text \<open>
  lodash \<open>baseGet\<close>: \<open>while (object != null && index < length) object = object[key]\<close>,
  and the result is \<open>undefined\<close> unless every key of a non-empty path was used.
\<close>

fun nullish :: "jsval \<Rightarrow> bool" where
  "nullish Undefined = True"
| "nullish Null = True"
| "nullish v = False"

fun baseGet_walk :: "jsval \<Rightarrow> string list \<Rightarrow> jsval option" where
  "baseGet_walk object [] = Some object"
| "baseGet_walk object (key # rest) =
     (if nullish object then Some Undefined
      else (case getProp object key of
              None \<Rightarrow> None
            | Some next \<Rightarrow> baseGet_walk next rest))"

definition baseGet :: "jsval \<Rightarrow> string \<Rightarrow> jsval option" where
  "baseGet object path =
     (let keys = castPath path object
      in if keys = [] then Some Undefined else baseGet_walk object keys)"

text \<open>
  lodash \<open>get(object, path)\<close>, without a default value as the source calls it; \<open>None\<close>
  where the path leads into what is not modelled.
\<close>

definition get_lodash :: "jsval \<Rightarrow> string \<Rightarrow> jsval option" where
  "get_lodash object path = (if nullish object then Some Undefined else baseGet object path)"

text \<open>The keys that \<open>baseSet\<close> refuses to write.\<close>

definition unsafe_key :: "string \<Rightarrow> bool" where
  "unsafe_key key = (key = ''__proto__'' \<or> key = ''constructor'' \<or> key = ''prototype'')"

text \<open>
  The loop of lodash \<open>baseSet\<close> from the object \<open>nested\<close> on. At a key before the last
  the property is kept when it is an object and replaced by a new array or object
  otherwise (an array when the next key is an index); it is assigned, and the walk goes
  on inside it; the last key takes the value. The result is \<open>nested\<close> as the loop leaves
  it, unless an assignment stops the call.
\<close>

fun baseSet_walk :: "jsval \<Rightarrow> string list \<Rightarrow> jsval \<Rightarrow> stopped + jsval" where
  "baseSet_walk nested [] v = Inr nested"
| "baseSet_walk nested (key # rest) v =
     (if unsafe_key key then Inr nested
      else if rest = [] then assignValue nested key v
      else
        (case getProp nested key of
           None \<Rightarrow> Inl Unmodelled
         | Some objValue \<Rightarrow>
             (let newValue = (if isObject objValue then objValue
                              else if isIndex (hd rest) then Arr 0 [] else Obj [])
              in case assignValue nested key newValue of
                   Inl e \<Rightarrow> Inl e
                 | Inr assigned \<Rightarrow>
                     (case baseSet_walk newValue rest v of
                        Inl e \<Rightarrow> Inl e
                      | Inr inner \<Rightarrow> assignValue nested key inner))))"

definition baseSet :: "jsval \<Rightarrow> string \<Rightarrow> jsval \<Rightarrow> stopped + jsval" where
  "baseSet object path v =
     (if \<not> isObject object then Inr object
      else baseSet_walk object (castPath path object) v)"

text \<open>lodash \<open>set(object, path, value)\<close>; the result is the object it was given, updated.\<close>

definition set_lodash :: "jsval \<Rightarrow> string \<Rightarrow> jsval \<Rightarrow> stopped + jsval" where
  "set_lodash object path v = (if nullish object then Inr object else baseSet object path v)"

section \<open>State, actions and the reducer\<close>

text \<open>\<open>interface FormBuiderState\<close> (lines 13 to 17) and \<open>initialState\<close> (lines 37 to 41).\<close>

record FormBuiderState =
  errors :: props
  fieldsValues :: jsval
  loadingInitialData :: bool

definition initialState :: FormBuiderState where
  "initialState = \<lparr>errors = [], fieldsValues = Obj [], loadingInitialData = False\<rparr>"

text \<open>
  The payloads the source builds: a partial state for \<open>ON_STATE_CHANGE\<close> (lines 134 and
  144), whose absent properties are \<open>None\<close>, and \<open>{name, value}\<close> for the two other
  actions (lines 124 and 234).
\<close>

record StatePatch =
  patch_errors :: "props option"
  patch_fieldsValues :: "jsval option"
  patch_loadingInitialData :: "bool option"

datatype payload =
    Patch StatePatch
  | Data string jsval

text \<open>\<open>interface FormBuilderActionMapType\<close> (lines 43 to 46); the type is the string sent.\<close>

record FormBuilderActionMapType =
  type :: string
  payload :: payload

text \<open>
  \<open>data.name\<close> and \<open>data.value\<close> of a payload. A partial state has neither property:
  both read \<open>undefined\<close>, which as a property name or lodash path is the key
  \<open>undefined\<close>.
\<close>

fun data_name :: "payload \<Rightarrow> string" where
  "data_name (Data n v) = n"
| "data_name (Patch p) = ''undefined''"

fun data_value :: "payload \<Rightarrow> jsval" where
  "data_value (Data n v) = v"
| "data_value (Patch p) = Undefined"

text \<open>
  Line 56, \<open>({ ...state, ...nextValue })\<close>: each state property the payload has replaces
  the state's. Properties of the payload that \<open>FormBuiderState\<close> does not declare are not
  part of the modelled state.
\<close>

fun on_state_change :: "FormBuiderState \<Rightarrow> payload \<Rightarrow> FormBuiderState" where
  "on_state_change state (Patch p) =
     \<lparr>errors = (case patch_errors p of Some e \<Rightarrow> e | None \<Rightarrow> errors state),
      fieldsValues = (case patch_fieldsValues p of Some f \<Rightarrow> f | None \<Rightarrow> fieldsValues state),
      loadingInitialData =
        (case patch_loadingInitialData p of Some l \<Rightarrow> l | None \<Rightarrow> loadingInitialData state)\<rparr>"
| "on_state_change state (Data n v) = state"

text \<open>Line 60, \<open>({ ...state, errors: { ...state.errors, [data.name]: data.value } })\<close>.\<close>

definition on_errors_change :: "FormBuiderState \<Rightarrow> payload \<Rightarrow> FormBuiderState" where
  "on_errors_change state data =
     state\<lparr>errors := AList.update (data_name data) (data_value data) (spread (Obj (errors state)))\<rparr>"

text \<open>
  Lines 64 to 70,
  \<open>({ ...state, fieldsValues: { ...state.fieldsValues,
      ...set({ ...state.fieldsValues }, data.name, data.value) } })\<close>.
  When \<open>set\<close> stops the call there is no state.
\<close>

definition on_field_value_change :: "FormBuiderState \<Rightarrow> payload \<Rightarrow> stopped + FormBuiderState" where
  "on_field_value_change state data =
     (case set_lodash (Obj (spread (fieldsValues state))) (data_name data) (data_value data) of
        Inl e \<Rightarrow> Inl e
      | Inr written \<Rightarrow>
          Inr (state\<lparr>fieldsValues :=
                 Obj (merge_props (spread (fieldsValues state)) (spread written))\<rparr>))"

text \<open>
  \<open>enum FormBuilderActions\<close> (lines 31 to 35) and \<open>actionsMap\<close> (lines 47 to 71). A
  handler gives the next state, or the call stops in it; the first two never stop.
\<close>

definition ON_STATE_CHANGE :: string where
  "ON_STATE_CHANGE = ''ON_STATE_CHANGE''"

definition ON_ERRORS_CHANGE :: string where
  "ON_ERRORS_CHANGE = ''ON_ERRORS_CHANGE''"

definition ON_FIELD_VALUE_CHANGE :: string where
  "ON_FIELD_VALUE_CHANGE = ''ON_FIELD_VALUE_CHANGE''"

definition actionsMap ::
  "(string \<times> (FormBuiderState \<Rightarrow> payload \<Rightarrow> stopped + FormBuiderState)) list" where
  "actionsMap =
     [(ON_STATE_CHANGE, \<lambda>state nextValue. Inr (on_state_change state nextValue)),
      (ON_ERRORS_CHANGE, \<lambda>state data. Inr (on_errors_change state data)),
      (ON_FIELD_VALUE_CHANGE, on_field_value_change)]"

text \<open>
  \<open>actionsMap\<close> is an object literal, so besides its own three properties it inherits
  those of \<open>Object.prototype\<close>, and the operator \<open>in\<close> of line 102 sees them too.
\<close>

definition in_actionsMap :: "string \<Rightarrow> bool" where
  "in_actionsMap t = (t \<in> set (map fst actionsMap) \<or> t \<in> set Object_prototype_names)"

text \<open>
  What a call of the reducer gives back: the next state, or, when the property called
  is an inherited one, whatever that built-in returns; or the call stops. The type of
  the state is a parameter, for the reducer over values and the one over a store.
\<close>

datatype 'state returned =
    NextState 'state
  | ReturnedString string
  | ReturnedBool bool
  | ReturnedUndefined
  | ReturnedActionsMap

text \<open>
  \<open>actionsMap[t](state, payload)\<close> for an inherited \<open>t\<close>, called with \<open>actionsMap\<close> as
  \<open>this\<close>: \<open>Object(state)\<close> is the state itself; \<open>toString\<close> and \<open>toLocaleString\<close> give
  the tag of \<open>actionsMap\<close>; \<open>valueOf\<close> gives \<open>actionsMap\<close>; the three tests look for a
  property named by the state and answer \<open>false\<close>; the two lookups answer \<open>undefined\<close>;
  \<open>__defineGetter__\<close> and \<open>__defineSetter__\<close> reject a payload that is not a function;
  \<open>__proto__\<close> is \<open>Object.prototype\<close>, which is not a function.
\<close>

definition inherited_call :: "string \<Rightarrow> 'state \<Rightarrow> 'payload \<Rightarrow> stopped + 'state returned" where
  "inherited_call t state p =
     (if t = ''constructor'' then Inr (NextState state)
      else if t = ''toString'' \<or> t = ''toLocaleString'' then Inr (ReturnedString ''[object Object]'')
      else if t = ''valueOf'' then Inr ReturnedActionsMap
      else if t = ''hasOwnProperty'' \<or> t = ''isPrototypeOf'' \<or> t = ''propertyIsEnumerable''
        then Inr (ReturnedBool False)
      else if t = ''__lookupGetter__'' \<or> t = ''__lookupSetter__'' then Inr ReturnedUndefined
      else Inl TypeError)"

text \<open>\<open>console.log(message, actionsMap)\<close>: the message and the names in the table logged.\<close>

datatype console_entry = Log string "string list"

text \<open>
  \<open>reducer\<close> (lines 98 to 108): what the call returns or how it stops, and what it
  writes to the console. The state is always supplied by \<open>useReducer\<close>, so the default
  \<open>initialState\<close> of the parameter is never taken.
\<close>

definition reducer ::
  "FormBuiderState \<Rightarrow> FormBuilderActionMapType \<Rightarrow>
     (stopped + FormBuiderState returned) \<times> console_entry list" where
  "reducer state action =
     (if \<not> in_actionsMap (type action) then
        (Inr (NextState state),
         [Log (''ACTION ['' @ type action @ ''] NOT FOUND IN actionsMap'') (map fst actionsMap)])
      else
        (case map_of actionsMap (type action) of
           Some handler \<Rightarrow>
             (case handler state (payload action) of
                Inl e \<Rightarrow> (Inl e, [])
              | Inr next \<Rightarrow> (Inr (NextState next), []))
         | None \<Rightarrow> (inherited_call (type action) state (payload action), [])))"

text \<open>
  The keys that line 68 writes along: \<open>castPath(data.name, object)\<close> for the copy
  \<open>{ ...state.fieldsValues }\<close> that \<open>set\<close> is given.
\<close>

definition field_keys :: "FormBuiderState \<Rightarrow> string \<Rightarrow> string list" where
  "field_keys state name = castPath name (Obj (spread (fieldsValues state)))"

section \<open>The context and the two field accessors\<close>

text \<open>
  \<open>dispatch\<close> hands an action to the reducer that \<open>useReducer\<close> holds. A function that
  dispatches is modelled by the actions it sends, in order; the no-op functions of
  \<open>defaultContext\<close> send none.
\<close>

record FormBuilderContextType =
  state :: FormBuiderState
  dispatch :: "FormBuilderActionMapType \<Rightarrow> FormBuilderActionMapType list"
  onFieldChange :: "string \<Rightarrow> jsval \<Rightarrow> FormBuilderActionMapType list"

text \<open>\<open>defaultContext\<close> (lines 79 to 87).\<close>

definition defaultContext :: FormBuilderContextType where
  "defaultContext =
     \<lparr>state = \<lparr>errors = [], fieldsValues = Obj [], loadingInitialData = False\<rparr>,
      dispatch = (\<lambda>action. []),
      onFieldChange = (\<lambda>fieldName v. [])\<rparr>"

text \<open>
  \<open>providerValue\<close> of \<open>FormBuilder\<close> (lines 157 to 162) for the current state, with the
  \<open>dispatch\<close> of \<open>useReducer\<close> and \<open>onFieldChange\<close> of lines 121 to 129.
\<close>

definition providerValue :: "FormBuiderState \<Rightarrow> FormBuilderContextType" where
  "providerValue st =
     \<lparr>state = st,
      dispatch = (\<lambda>action. [action]),
      onFieldChange =
        (\<lambda>fieldName v. [\<lparr>type = ON_FIELD_VALUE_CHANGE, payload = Data fieldName v\<rparr>])\<rparr>"

text \<open>
  \<open>interface FormBuildreChildrenParams\<close> (lines 92 to 96): what an accessor hands out.
  The \<open>value\<close> is \<open>None\<close> where reading the path is not modelled.
\<close>

record FormBuildreChildrenParams = FormBuilderContextType +
  fieldError :: jsval
  "value" :: "jsval option"
  onChange :: "jsval \<Rightarrow> FormBuilderActionMapType list"

text \<open>
  \<open>FormBuilderField\<close> (lines 191 to 214): the render-prop component calls \<open>children\<close>
  with the parameters of the field, or renders \<open>null\<close> when it has no \<open>children\<close>.
\<close>

definition FormBuilderField ::
  "string \<Rightarrow> (FormBuildreChildrenParams \<Rightarrow> 'node) option \<Rightarrow> FormBuilderContextType \<Rightarrow> 'node option" where
  "FormBuilderField fieldName children ctx =
     (case children of
        Some render \<Rightarrow>
          Some (render
            \<lparr>state = state ctx,
             dispatch = dispatch ctx,
             onFieldChange = onFieldChange ctx,
             fieldError = object_prop (errors (state ctx)) fieldName,
             value = get_lodash (fieldsValues (state ctx)) fieldName,
             onChange = (\<lambda>v. onFieldChange ctx fieldName v)\<rparr>)
      | None \<Rightarrow> None)"

text \<open>
  \<open>useFormBuilderField\<close> (lines 216 to 252), with the context that \<open>useContext\<close> gives.
  The validator is optional; it maps the value to an error, or to a falsy value.
\<close>

definition useFormBuilderField ::
  "string \<Rightarrow> jsval \<Rightarrow> (jsval \<Rightarrow> jsval) option \<Rightarrow> FormBuilderContextType \<Rightarrow> FormBuildreChildrenParams" where
  "useFormBuilderField fieldName defaultValue validator ctx =
     \<lparr>state = state ctx,
      dispatch = dispatch ctx,
      onFieldChange = onFieldChange ctx,
      fieldError = object_prop (errors (state ctx)) fieldName,
      value = map_option (\<lambda>found. js_or found defaultValue)
                (get_lodash (fieldsValues (state ctx)) fieldName),
      onChange =
        (\<lambda>v. (case validator of
                 Some check \<Rightarrow>
                   (let error = check v
                    in if truthy error
                       then dispatch ctx \<lparr>type = ON_ERRORS_CHANGE, payload = Data fieldName error\<rparr>
                       else dispatch ctx
                              \<lparr>type = ON_ERRORS_CHANGE, payload = Data fieldName (Bool False)\<rparr>)
               | None \<Rightarrow> [])
             @ onFieldChange ctx fieldName v)\<rparr>"

text \<open>
  The state after the actions sent have gone through the reducer one by one, as
  \<open>useReducer\<close> applies them; a call of the reducer that does not return a state ends it.
\<close>

fun apply_actions ::
  "FormBuiderState \<Rightarrow> FormBuilderActionMapType list \<Rightarrow> stopped + FormBuiderState returned" where
  "apply_actions s [] = Inr (NextState s)"
| "apply_actions s (a # as) =
     (case fst (reducer s a) of
        Inr (NextState s') \<Rightarrow> apply_actions s' as
      | other \<Rightarrow> other)"

section \<open>Form submission\<close>

text \<open>
  The \<open>onSubmit\<close> handler of the form element (lines 169 to 180). The entries of
  \<open>new FormData(formElement)\<close> come from the browser and are a parameter. Lines 175 to
  178 build the values by \<open>set(values, key, value)\<close> for each entry in order; a call of
  \<open>set\<close> that stops ends the loop and the handler.
\<close>

fun set_entries :: "jsval \<Rightarrow> (string \<times> jsval) list \<Rightarrow> stopped + jsval" where
  "set_entries values [] = Inr values"
| "set_entries values ((key, v) # form) =
     (case set_lodash values key v of
        Inl e \<Rightarrow> Inl e
      | Inr written \<Rightarrow> set_entries written form)"

definition submitted_values :: "(string \<times> jsval) list \<Rightarrow> stopped + jsval" where
  "submitted_values form = set_entries (Obj []) form"

datatype submit_effect =
    Persist
  | PreventDefault
  | OnSubmit jsval

text \<open>What the handler does, and how it stops when it does not come to its end.\<close>

definition onSubmit_handler :: "(string \<times> jsval) list \<Rightarrow> submit_effect list \<times> stopped option" where
  "onSubmit_handler form =
     (case submitted_values form of
        Inl e \<Rightarrow> ([Persist, PreventDefault], Some e)
      | Inr values \<Rightarrow> ([Persist, PreventDefault, OnSubmit values], None))"

text \<open>One \<open>ON_FIELD_VALUE_CHANGE\<close> action per entry, as typing the entries would send them.\<close>

definition field_actions :: "(string \<times> jsval) list \<Rightarrow> FormBuilderActionMapType list" where
  "field_actions form = map (\<lambda>(key, v). \<lparr>type = ON_FIELD_VALUE_CHANGE, payload = Data key v\<rparr>) form"

section \<open>The reducer over a store\<close>

text \<open>
  JavaScript objects are references: \<open>set\<close> writes into the object it is given, and a
  spread copies one level only. To see what a call does to objects that the caller
  still holds, the same code is modelled once more over a store: a value is a primitive
  or the address of an object, and the store lists the objects by address. The store
  holds data objects with their own properties; the paths it is used with name own
  properties only.
\<close>

datatype hval =
    HUndefined
  | HNull
  | HBool bool
  | HNum int
  | HStr string
  | HRef nat

record hobj =
  is_array :: bool
  hprops :: "(string \<times> hval) list"

type_synonym heap = "hobj list"

text \<open>\<open>object[key]\<close> in the store.\<close>

fun h_getProp :: "heap \<Rightarrow> hval \<Rightarrow> string \<Rightarrow> hval" where
  "h_getProp h (HRef a) k =
     (if a < length h
      then (case map_of (hprops (h ! a)) k of Some v \<Rightarrow> v | None \<Rightarrow> HUndefined)
      else HUndefined)"
| "h_getProp h (HStr s) k =
     (if reIsUint k \<and> digits_value k < int (length s)
      then HStr [s ! nat (digits_value k)] else HUndefined)"
| "h_getProp h v k = HUndefined"

fun h_hasOwn :: "heap \<Rightarrow> hval \<Rightarrow> string \<Rightarrow> bool" where
  "h_hasOwn h (HRef a) k = (a < length h \<and> map_of (hprops (h ! a)) k \<noteq> None)"
| "h_hasOwn h (HStr s) k = (reIsUint k \<and> digits_value k < int (length s))"
| "h_hasOwn h v k = False"

fun h_nullish :: "hval \<Rightarrow> bool" where
  "h_nullish HUndefined = True"
| "h_nullish HNull = True"
| "h_nullish v = False"

text \<open>\<open>object[key] = value\<close> for the object at an address: the store changes in place.\<close>

definition h_assign :: "heap \<Rightarrow> nat \<Rightarrow> string \<Rightarrow> hval \<Rightarrow> heap" where
  "h_assign h a k v =
     (if a < length h then h[a := (h ! a)\<lparr>hprops := AList.update k v (hprops (h ! a))\<rparr>] else h)"

definition h_castPath :: "heap \<Rightarrow> string \<Rightarrow> hval \<Rightarrow> string list" where
  "h_castPath h s object =
     (if reIsPlainProp s \<or> \<not> reIsDeepProp s \<or> h_hasOwn h object s then [s]
      else stringToPath s)"

text \<open>
  The loop of \<open>baseSet\<close>, from the object at address \<open>nested\<close> on. A property that is an
  object is entered as it is (assigning it to itself is skipped); otherwise a new
  array or object is allocated, assigned and entered.
\<close>

fun h_baseSet_walk :: "heap \<Rightarrow> nat \<Rightarrow> string list \<Rightarrow> hval \<Rightarrow> heap" where
  "h_baseSet_walk h nested [] v = h"
| "h_baseSet_walk h nested (key # rest) v =
     (if unsafe_key key then h
      else if rest = [] then h_assign h nested key v
      else
        (case h_getProp h (HRef nested) key of
           HRef child \<Rightarrow> h_baseSet_walk h child rest v
         | objValue \<Rightarrow>
             (let fresh = length h;
                  h1 = h @ [\<lparr>is_array = isIndex (hd rest), hprops = []\<rparr>];
                  h2 = h_assign h1 nested key (HRef fresh)
              in h_baseSet_walk h2 fresh rest v)))"

text \<open>\<open>set(object, path, value)\<close>: the store after the call; the call returns \<open>object\<close>.\<close>

definition h_set :: "heap \<Rightarrow> hval \<Rightarrow> string \<Rightarrow> hval \<Rightarrow> heap" where
  "h_set h object path v =
     (case object of
        HRef a \<Rightarrow> h_baseSet_walk h a (h_castPath h path object) v
      | other \<Rightarrow> h)"

fun h_baseGet_walk :: "heap \<Rightarrow> hval \<Rightarrow> string list \<Rightarrow> hval" where
  "h_baseGet_walk h object [] = object"
| "h_baseGet_walk h object (key # rest) =
     (if h_nullish object then HUndefined else h_baseGet_walk h (h_getProp h object key) rest)"

definition h_get :: "heap \<Rightarrow> hval \<Rightarrow> string \<Rightarrow> hval" where
  "h_get h object path =
     (if h_nullish object then HUndefined
      else (let keys = h_castPath h path object
            in if keys = [] then HUndefined else h_baseGet_walk h object keys))"

text \<open>The properties a spread copies out of a value, by reference.\<close>

fun h_spread :: "heap \<Rightarrow> hval \<Rightarrow> (string \<times> hval) list" where
  "h_spread h (HRef a) = (if a < length h then AList.clearjunk (hprops (h ! a)) else [])"
| "h_spread h (HStr s) = map (\<lambda>(i, c). (decimal i, HStr [c])) (enumerate 0 s)"
| "h_spread h v = []"

record hstate =
  herrors :: hval
  hfieldsValues :: hval
  hloadingInitialData :: bool

record hpatch =
  hpatch_errors :: "hval option"
  hpatch_fieldsValues :: "hval option"
  hpatch_loadingInitialData :: "bool option"

datatype hpayload =
    HPatch hpatch
  | HData string hval

record haction =
  htype :: string
  hpayload :: hpayload

fun hdata_name :: "hpayload \<Rightarrow> string" where
  "hdata_name (HData n v) = n"
| "hdata_name (HPatch p) = ''undefined''"

fun hdata_value :: "hpayload \<Rightarrow> hval" where
  "hdata_value (HData n v) = v"
| "hdata_value (HPatch p) = HUndefined"

text \<open>The three handlers of \<open>actionsMap\<close>: the store and the state they return.\<close>

fun h_on_state_change :: "heap \<Rightarrow> hstate \<Rightarrow> hpayload \<Rightarrow> heap \<times> hstate" where
  "h_on_state_change h st (HPatch p) =
     (h, \<lparr>herrors = (case hpatch_errors p of Some e \<Rightarrow> e | None \<Rightarrow> herrors st),
          hfieldsValues = (case hpatch_fieldsValues p of Some f \<Rightarrow> f | None \<Rightarrow> hfieldsValues st),
          hloadingInitialData =
            (case hpatch_loadingInitialData p of Some l \<Rightarrow> l | None \<Rightarrow> hloadingInitialData st)\<rparr>)"
| "h_on_state_change h st (HData n v) = (h, st)"

definition h_on_errors_change :: "heap \<Rightarrow> hstate \<Rightarrow> hpayload \<Rightarrow> heap \<times> hstate" where
  "h_on_errors_change h st data =
     (h @ [\<lparr>is_array = False,
             hprops = AList.update (hdata_name data) (hdata_value data) (h_spread h (herrors st))\<rparr>],
      st\<lparr>herrors := HRef (length h)\<rparr>)"

text \<open>
  Lines 64 to 70 in the order JavaScript evaluates them: the outer literal takes the
  properties of \<open>state.fieldsValues\<close>; the copy \<open>{ ...state.fieldsValues }\<close> is allocated;
  \<open>set\<close> writes into the copy and into whatever the copy shares with the state; the
  properties of the copy are written over those of the outer literal.
\<close>

definition h_on_field_value_change :: "heap \<Rightarrow> hstate \<Rightarrow> hpayload \<Rightarrow> heap \<times> hstate" where
  "h_on_field_value_change h st data =
     (let outer = h_spread h (hfieldsValues st);
          copy = length h;
          h1 = h @ [\<lparr>is_array = False, hprops = h_spread h (hfieldsValues st)\<rparr>];
          h2 = h_set h1 (HRef copy) (hdata_name data) (hdata_value data);
          h3 = h2 @ [\<lparr>is_array = False, hprops = fold (\<lambda>(k, v). AList.update k v) (h_spread h2 (HRef copy)) outer\<rparr>]
      in (h3, st\<lparr>hfieldsValues := HRef (length h2)\<rparr>))"

definition h_actionsMap :: "(string \<times> (heap \<Rightarrow> hstate \<Rightarrow> hpayload \<Rightarrow> heap \<times> hstate)) list" where
  "h_actionsMap =
     [(ON_STATE_CHANGE, h_on_state_change),
      (ON_ERRORS_CHANGE, h_on_errors_change),
      (ON_FIELD_VALUE_CHANGE, h_on_field_value_change)]"

text \<open>\<open>reducer\<close> over the store: the store after the call, the result and the console.\<close>

definition h_reducer ::
  "heap \<Rightarrow> hstate \<Rightarrow> haction \<Rightarrow> heap \<times> (stopped + hstate returned) \<times> console_entry list" where
  "h_reducer h st action =
     (if \<not> in_actionsMap (htype action) then
        (h, Inr (NextState st),
         [Log (''ACTION ['' @ htype action @ ''] NOT FOUND IN actionsMap'') (map fst h_actionsMap)])
      else
        (case map_of h_actionsMap (htype action) of
           Some handler \<Rightarrow>
             (let (h', st') = handler h st (hpayload action) in (h', Inr (NextState st'), []))
         | None \<Rightarrow> (h, inherited_call (htype action) st (hpayload action), [])))"

text \<open>The length of an array with the given property names: one beyond its last index.\<close>

definition indices_length :: "string list \<Rightarrow> nat" where
  "indices_length ks = foldl max 0 (map (\<lambda>k. nat (digits_value k) + 1) (filter array_index ks))"

text \<open>The value at an address as a tree, down to a depth.\<close>

fun h_read :: "nat \<Rightarrow> heap \<Rightarrow> hval \<Rightarrow> jsval option" where
  "h_read d h HUndefined = Some Undefined"
| "h_read d h HNull = Some Null"
| "h_read d h (HBool b) = Some (Bool b)"
| "h_read d h (HNum n) = Some (Num n)"
| "h_read d h (HStr s) = Some (Str s)"
| "h_read 0 h (HRef a) = None"
| "h_read (Suc d) h (HRef a) =
     (if a < length h then
        (let ps = map (\<lambda>(k, v). (k, h_read d h v)) (hprops (h ! a))
         in if list_ex (\<lambda>(k, r). r = None) ps then None
            else (if is_array (h ! a)
                  then Some (Arr (indices_length (map fst ps)) (map (\<lambda>(k, r). (k, the r)) ps))
                  else Some (Obj (map (\<lambda>(k, r). (k, the r)) ps))))
      else None)"

text \<open>
  An example store: \<open>fieldsValues = {address: {city: Oslo}}\<close> at addresses 0 and 1, and the
  empty \<open>errors\<close> at address 2.
\<close>

definition example_heap :: heap where
  "example_heap =
     [\<lparr>is_array = False, hprops = [(''address'', HRef 1)]\<rparr>,
      \<lparr>is_array = False, hprops = [(''city'', HStr ''Oslo'')]\<rparr>,
      \<lparr>is_array = False, hprops = []\<rparr>]"

definition example_hstate :: hstate where
  "example_hstate = \<lparr>herrors = HRef 2, hfieldsValues = HRef 0, hloadingInitialData = False\<rparr>"

section \<open>Loading the initial values\<close>

text \<open>
  An asynchronous function is modelled by the steps it takes: it dispatches, it awaits
  a promise and goes on with the value the promise resolves to, it sets a timer whose
  callback dispatches.
\<close>

datatype task =
    Finished
  | Dispatch FormBuilderActionMapType task
  | Await "jsval \<Rightarrow> task"
  | SetTimeout "FormBuilderActionMapType list" nat task

text \<open>
  \<open>loadInitialData\<close> (lines 130 to 152), which the effect of lines 153 to 155 runs once
  on mount. The loader is optional.
\<close>

definition loadInitialData :: "'loader option \<Rightarrow> task" where
  "loadInitialData initialFieldValuesLoader =
     (case initialFieldValuesLoader of
        None \<Rightarrow> Finished
      | Some loader \<Rightarrow>
          Dispatch
            \<lparr>type = ON_STATE_CHANGE,
             payload = Patch \<lparr>patch_errors = None, patch_fieldsValues = None,
                              patch_loadingInitialData = Some True\<rparr>\<rparr>
            (Await (\<lambda>fieldsValues.
               SetTimeout
                 [\<lparr>type = ON_STATE_CHANGE,
                   payload = Patch \<lparr>patch_errors = None, patch_fieldsValues = Some fieldsValues,
                                    patch_loadingInitialData = Some False\<rparr>\<rparr>]
                 (3 * 1000)
                 Finished)))"

text \<open>
  The dispatches of a task with the time of each, in milliseconds, for a run that
  starts at \<open>now\<close>, in which the awaited promise resolves \<open>after\<close> milliseconds later to
  \<open>resolved\<close>, and in which a timer fires \<open>late\<close> milliseconds after its delay has
  passed: a timer never fires before its delay.
\<close>

primrec run_task :: "task \<Rightarrow> nat \<Rightarrow> nat \<Rightarrow> jsval \<Rightarrow> nat \<Rightarrow> (nat \<times> FormBuilderActionMapType) list" where
  "run_task Finished now after resolved late = []"
| "run_task (Dispatch action next) now after resolved late =
     (now, action) # run_task next now after resolved late"
| "run_task (Await continue) now after resolved late =
     run_task (continue resolved) (now + after) after resolved late"
| "run_task (SetTimeout callback delay next) now after resolved late =
     run_task next now after resolved late @ map (\<lambda>action. (now + delay + late, action)) callback"

text \<open>The state at time \<open>t\<close>: the initial state after the dispatches made up to then.\<close>

definition state_at :: "(nat \<times> FormBuilderActionMapType) list \<Rightarrow> nat \<Rightarrow> stopped + FormBuiderState returned" where
  "state_at dispatches t =
     apply_actions initialState (map snd (filter (\<lambda>(at, action). at \<le> t) dispatches))"

text \<open>
  What \<open>FormBuilder\<close> renders inside the provider (lines 166 and 167): the loader while
  \<open>loadingInitialData\<close> holds, the form otherwise.
\<close>

datatype rendered = FormLoader | Form

definition render :: "FormBuiderState \<Rightarrow> rendered" where
  "render st = (if loadingInitialData st then FormLoader else Form)"

section \<open>The reducer on the three actions of the table\<close>

lemma reducer_ON_ERRORS_CHANGE:
  "reducer s \<lparr>type = ON_ERRORS_CHANGE, payload = p\<rparr> = (Inr (NextState (on_errors_change s p)), [])"
  by (simp add: reducer_def in_actionsMap_def actionsMap_def ON_STATE_CHANGE_def
      ON_ERRORS_CHANGE_def ON_FIELD_VALUE_CHANGE_def)

lemma reducer_ON_FIELD_VALUE_CHANGE:
  "reducer s \<lparr>type = ON_FIELD_VALUE_CHANGE, payload = p\<rparr> =
     (case on_field_value_change s p of
        Inl e \<Rightarrow> (Inl e, [])
      | Inr next \<Rightarrow> (Inr (NextState next), []))"
  by (simp add: reducer_def in_actionsMap_def actionsMap_def ON_STATE_CHANGE_def
      ON_ERRORS_CHANGE_def ON_FIELD_VALUE_CHANGE_def)

lemma reducer_ON_STATE_CHANGE:
  "reducer s \<lparr>type = ON_STATE_CHANGE, payload = p\<rparr> = (Inr (NextState (on_state_change s p)), [])"
  by (simp add: reducer_def in_actionsMap_def actionsMap_def ON_STATE_CHANGE_def
      ON_ERRORS_CHANGE_def ON_FIELD_VALUE_CHANGE_def)

section \<open>The reducer: action types that are not in the table\<close>

text \<open>An action type that no object has: the reducer logs it and returns the state.\<close>

lemma reducer_type_not_found:
  assumes "t \<notin> set (map fst actionsMap)" and "t \<notin> set Object_prototype_names"
  shows "reducer s \<lparr>type = t, payload = p\<rparr> =
           (Inr (NextState s), [Log (''ACTION ['' @ t @ ''] NOT FOUND IN actionsMap'')
                                   [ON_STATE_CHANGE, ON_ERRORS_CHANGE, ON_FIELD_VALUE_CHANGE]])"
  using assms by (simp add: reducer_def in_actionsMap_def) (simp add: actionsMap_def)

text \<open>
  C2. The claim is that every action type other than the three of the table leaves the
  state as it is, with a diagnostic, and never throws. The test of line 102 is
  \<open>action.type in actionsMap\<close>, which also holds for the names \<open>actionsMap\<close> inherits: for
  the type \<open>__proto__\<close> line 107 calls a value that is not a function and throws, and for
  the type \<open>toString\<close> the reducer returns the string \<open>[object Object]\<close> in place of a
  state; neither writes the diagnostic.
\<close>

theorem reducer_inherited_type:
  "reducer s \<lparr>type = ''__proto__'', payload = p\<rparr> = (Inl TypeError, [])
   \<and> reducer s \<lparr>type = ''toString'', payload = p\<rparr> = (Inr (ReturnedString ''[object Object]''), [])"
  by (simp add: reducer_def in_actionsMap_def actionsMap_def Object_prototype_names_def
      inherited_call_def ON_STATE_CHANGE_def ON_ERRORS_CHANGE_def ON_FIELD_VALUE_CHANGE_def)

section \<open>The reducer and the objects of its caller\<close>

text \<open>The two handlers that build new objects only leave every object of the store alone.\<close>

lemma h_on_errors_change_keeps_store:
  "a < length h \<Longrightarrow> fst (h_on_errors_change h st d) ! a = h ! a"
  by (simp add: h_on_errors_change_def nth_append)

lemma h_on_state_change_keeps_store: "fst (h_on_state_change h st d) = h"
  by (cases d) simp_all

text \<open>
  On the example the reducer over the store and the reducer over values agree on the
  \<open>fieldsValues\<close> they return.
\<close>

lemma store_and_values_agree_on_example:
  "h_read 3 example_heap (hfieldsValues example_hstate) = Some (Obj [(''address'', Obj [(''city'', Str ''Oslo'')])])
   \<and> (case h_reducer example_heap example_hstate
             \<lparr>htype = ON_FIELD_VALUE_CHANGE, hpayload = HData ''address.city'' (HStr ''Bergen'')\<rparr> of
         (h', Inr (NextState st'), out) \<Rightarrow> h_read 3 h' (hfieldsValues st')
       | other \<Rightarrow> None)
       = (case on_field_value_change
            \<lparr>errors = [], fieldsValues = Obj [(''address'', Obj [(''city'', Str ''Oslo'')])],
              loadingInitialData = False\<rparr> (Data ''address.city'' (Str ''Bergen'')) of
            Inr st \<Rightarrow> Some (fieldsValues st)
          | Inl e \<Rightarrow> None)"
  by code_simp

text \<open>
  C3. The claim is that the reducer leaves the state it is given unchanged, nested
  objects included. For \<open>ON_FIELD_VALUE_CHANGE\<close> with the name \<open>address.city\<close> the copy of
  line 68 is one level deep, so the copy and the state share the object at \<open>address\<close>,
  and \<open>set\<close> writes the new city into it: after the call the state that was passed in
  resolves \<open>address.city\<close> to the new value.
\<close>

theorem reducer_writes_into_given_state:
  "h_get example_heap (hfieldsValues example_hstate) ''address.city'' = HStr ''Oslo''
   \<and> h_reducer example_heap example_hstate
        \<lparr>htype = ON_FIELD_VALUE_CHANGE, hpayload = HData ''address.city'' (HStr ''Bergen'')\<rparr>
      = ([\<lparr>is_array = False, hprops = [(''address'', HRef 1)]\<rparr>,
          \<lparr>is_array = False, hprops = [(''city'', HStr ''Bergen'')]\<rparr>,
          \<lparr>is_array = False, hprops = []\<rparr>,
          \<lparr>is_array = False, hprops = [(''address'', HRef 1)]\<rparr>,
          \<lparr>is_array = False, hprops = [(''address'', HRef 1)]\<rparr>],
         Inr (NextState \<lparr>herrors = HRef 2, hfieldsValues = HRef 4, hloadingInitialData = False\<rparr>),
         [])
   \<and> h_get (fst (h_reducer example_heap example_hstate
               \<lparr>htype = ON_FIELD_VALUE_CHANGE, hpayload = HData ''address.city'' (HStr ''Bergen'')\<rparr>))
        (hfieldsValues example_hstate) ''address.city'' = HStr ''Bergen''"
  by code_simp

section \<open>The loader stays for three seconds\<close>

lemma run_loadInitialData:
  "run_task (loadInitialData (Some loader)) 0 after x late =
     [(0, \<lparr>type = ON_STATE_CHANGE,
            payload = Patch \<lparr>patch_errors = None, patch_fieldsValues = None,
                             patch_loadingInitialData = Some True\<rparr>\<rparr>),
      (after + 3000 + late,
       \<lparr>type = ON_STATE_CHANGE,
        payload = Patch \<lparr>patch_errors = None, patch_fieldsValues = Some x,
                         patch_loadingInitialData = Some False\<rparr>\<rparr>)]"
  by (simp add: loadInitialData_def)

text \<open>
  C7. With a loader configured, a run that starts at time 0 and whose loader resolves
  after any number of milliseconds dispatches \<open>ON_STATE_CHANGE {loadingInitialData: true}\<close>
  at once and \<open>ON_STATE_CHANGE {fieldsValues, loadingInitialData: false}\<close> when the timer
  of 3000 milliseconds set at the resolution fires. At every time before 3000
  milliseconds after the resolution the state renders the loader; once the timer has
  fired it renders the form with the loaded values.
\<close>

theorem loader_shown_three_seconds:
  "run_task (loadInitialData (Some loader)) 0 after x late =
     [(0, \<lparr>type = ON_STATE_CHANGE,
            payload = Patch \<lparr>patch_errors = None, patch_fieldsValues = None,
                             patch_loadingInitialData = Some True\<rparr>\<rparr>),
      (after + 3000 + late,
       \<lparr>type = ON_STATE_CHANGE,
        payload = Patch \<lparr>patch_errors = None, patch_fieldsValues = Some x,
                         patch_loadingInitialData = Some False\<rparr>\<rparr>)]
   \<and> (t < after + 3000 \<longrightarrow>
        (\<exists>st. state_at (run_task (loadInitialData (Some loader)) 0 after x late) t = Inr (NextState st)
              \<and> render st = FormLoader))
   \<and> (after + 3000 + late \<le> t \<longrightarrow>
        (\<exists>st. state_at (run_task (loadInitialData (Some loader)) 0 after x late) t = Inr (NextState st)
              \<and> render st = Form \<and> fieldsValues st = x))"
  unfolding run_loadInitialData
  by (simp add: state_at_def reducer_ON_STATE_CHANGE render_def initialState_def)

theorem loader_shown_three_seconds_witness:
  "(2999::nat) < 0 + 3000
   \<and> (\<exists>st. state_at (run_task (loadInitialData (Some ())) 0 0 (Obj [(''name'', Str ''Ada'')]) 0) 2999
             = Inr (NextState st)
          \<and> render st = FormLoader)
   \<and> (0::nat) + 3000 + 0 \<le> 3000
   \<and> (\<exists>st. state_at (run_task (loadInitialData (Some ())) 0 0 (Obj [(''name'', Str ''Ada'')]) 0) 3000
             = Inr (NextState st)
          \<and> render st = Form \<and> get_lodash (fieldsValues st) ''name'' = Some (Str ''Ada''))"
proof -
  have g: "get_lodash (Obj [(''name'', Str ''Ada'')]) ''name'' = Some (Str ''Ada'')" by code_simp
  have a: "(2999::nat) < 0 + 3000" and b: "(0::nat) + 3000 + 0 \<le> 3000" by simp_all
  from loader_shown_three_seconds [of "()" 0 "Obj [(''name'', Str ''Ada'')]" 0 2999] a
  have one: "\<exists>st. state_at (run_task (loadInitialData (Some ())) 0 0 (Obj [(''name'', Str ''Ada'')]) 0) 2999
             = Inr (NextState st) \<and> render st = FormLoader"
    by blast
  from loader_shown_three_seconds [of "()" 0 "Obj [(''name'', Str ''Ada'')]" 0 3000] b
  have two: "\<exists>st. state_at (run_task (loadInitialData (Some ())) 0 0 (Obj [(''name'', Str ''Ada'')]) 0) 3000
             = Inr (NextState st) \<and> render st = Form \<and> fieldsValues st = Obj [(''name'', Str ''Ada'')]"
    by blast
  show ?thesis using a b one two g by auto
qed


section \<open>The two accessors compared\<close>

text \<open>
  C8, as the code has it. For the same field name and context the two accessors give
  the same \<open>fieldError\<close>, \<open>state\<close>, \<open>dispatch\<close> and \<open>onFieldChange\<close>. The hook's \<open>value\<close>
  is the render-prop's when that is truthy and the default otherwise. The hook's
  \<open>onChange\<close> is the render-prop's when it has no validator; with one it first sends an
  \<open>ON_ERRORS_CHANGE\<close>.
\<close>

theorem accessors_compared:
  "\<exists>r. FormBuilderField n (Some (\<lambda>params. params)) ctx = Some r
      \<and> fieldError (useFormBuilderField n d validator ctx) = fieldError r
      \<and> state (useFormBuilderField n d validator ctx) = state r
      \<and> dispatch (useFormBuilderField n d validator ctx) = dispatch r
      \<and> onFieldChange (useFormBuilderField n d validator ctx) = onFieldChange r
      \<and> value (useFormBuilderField n d validator ctx) =
            map_option (\<lambda>found. if truthy found then found else d) (value r)
      \<and> onChange (useFormBuilderField n d None ctx) = onChange r
      \<and> (\<forall>check v. onChange (useFormBuilderField n d (Some check) ctx) v =
            dispatch ctx \<lparr>type = ON_ERRORS_CHANGE,
                           payload = Data n (if truthy (check v) then check v else Bool False)\<rparr>
            @ onChange r v)"
  by (simp add: FormBuilderField_def useFormBuilderField_def js_or_def Let_def cong: map_option_cong)

text \<open>
  C8 as it is stated fails: with \<open>0\<close> stored at \<open>age\<close> the render-prop accessor gives the
  value \<open>0\<close> and the hook with default \<open>18\<close> gives \<open>18\<close>; and \<open>onChange(5)\<close> sends one
  action from the render-prop accessor and two from a hook with a validator.
\<close>

theorem accessors_counterexample:
  "FormBuilderField ''age'' (Some value)
      (providerValue \<lparr>errors = [], fieldsValues = Obj [(''age'', Num 0)], loadingInitialData = False\<rparr>)
     = Some (Some (Num 0))
   \<and> value (useFormBuilderField ''age'' (Num 18) None
        (providerValue \<lparr>errors = [], fieldsValues = Obj [(''age'', Num 0)], loadingInitialData = False\<rparr>))
     = Some (Num 18)
   \<and> FormBuilderField ''age'' (Some (\<lambda>params. onChange params (Num 5)))
        (providerValue initialState)
     = Some [\<lparr>type = ON_FIELD_VALUE_CHANGE, payload = Data ''age'' (Num 5)\<rparr>]
   \<and> onChange (useFormBuilderField ''age'' (Num 18) (Some (\<lambda>v. Str ''too young''))
        (providerValue initialState)) (Num 5)
     = [\<lparr>type = ON_ERRORS_CHANGE, payload = Data ''age'' (Str ''too young'')\<rparr>,
        \<lparr>type = ON_FIELD_VALUE_CHANGE, payload = Data ''age'' (Num 5)\<rparr>]"
proof -
  have g: "get_lodash (Obj [(''age'', Num 0)]) ''age'' = Some (Num 0)" by code_simp
  show ?thesis
    by (simp add: FormBuilderField_def useFormBuilderField_def providerValue_def js_or_def g)
qed

section \<open>Facts about property lists\<close>

lemma fold_update_triv:
  "(\<And>k v. (k, v) \<in> set q \<Longrightarrow> map_of p k = Some v) \<Longrightarrow>
     fold (\<lambda>(k, v). AList.update k v) q p = p"
proof (induction q)
  case Nil
  then show ?case by simp
next
  case (Cons a q)
  obtain k v where a: "a = (k, v)" by (cases a)
  have "map_of p k = Some v" using Cons.prems [of k v] a by simp
  then have "AList.update k v p = p" by (rule update_triv)
  then show ?case using Cons a by simp
qed

lemma merge_props_self:
  "distinct (map fst p) \<Longrightarrow> merge_props p p = p"
  unfolding merge_props_def by (rule fold_update_triv) simp

lemma alist_eqI:
  "distinct (map fst a) \<Longrightarrow> map fst a = map fst b \<Longrightarrow> map_of a = map_of b \<Longrightarrow> a = b"
proof (induction a arbitrary: b)
  case Nil
  then show ?case by simp
next
  case (Cons x a)
  then obtain y b' where b: "b = y # b'" by (cases b) auto
  obtain k v where x: "x = (k, v)" by (cases x)
  obtain w where y: "y = (k, w)" using Cons.prems(2) b x by (cases y) auto
  have kv: "v = w" using Cons.prems(3) b x y by (auto dest: fun_cong [where x = k])
  have ka: "k \<notin> fst ` set a" using Cons.prems(1) x by auto
  have ab: "map fst a = map fst b'" using Cons.prems(2) b by simp
  then have "set (map fst a) = set (map fst b')" by simp
  then have kb: "k \<notin> fst ` set b'" using ka by simp
  have "map_of a j = map_of b' j" for j
  proof (cases "j = k")
    case True
    have "map_of a k = None" "map_of b' k = None"
      using ka kb by (simp_all add: map_of_eq_None_iff)
    then show ?thesis using True by simp
  next
    case False
    then show ?thesis using Cons.prems(3) b x y by (auto dest: fun_cong [where x = j])
  qed
  then have "map_of a = map_of b'" by auto
  moreover have "distinct (map fst a)" "map fst a = map fst b'" using Cons.prems(1) ab by auto
  ultimately have "a = b'" using Cons.IH by blast
  then show ?case using b x y kv by simp
qed

lemma map_of_rev_distinct: "distinct (map fst xs) \<Longrightarrow> map_of (rev xs) = map_of xs"
  by (simp add: map_of_inject_set rev_map [symmetric])

lemma map_fst_fold_update:
  "fst ` set q \<subseteq> fst ` set p \<Longrightarrow> map fst (fold (\<lambda>(k, v). AList.update k v) q p) = map fst p"
proof (induction q arbitrary: p)
  case Nil
  then show ?case by simp
next
  case (Cons a q)
  obtain k v where a: "a = (k, v)" by (cases a)
  have k: "k \<in> fst ` set p" using Cons.prems a by auto
  then have keys: "map fst (AList.update k v p) = map fst p" by (simp add: update_keys)
  then have "fst ` set q \<subseteq> fst ` set (AList.update k v p)"
    using Cons.prems by (simp add: dom_update insert_absorb k)
  from Cons.IH [OF this] show ?case using a keys by simp
qed

lemma map_of_fold_update:
  "map_of (fold (\<lambda>(k, v). AList.update k v) q p) = map_of p ++ map_of (rev q)"
proof (induction q arbitrary: p)
  case Nil
  then show ?case by simp
next
  case (Cons a q)
  obtain k v where a: "a = (k, v)" by (cases a)
  have "map_of (AList.update k v p) ++ map_of (rev q) = map_of p ++ map_of (rev q @ [(k, v)])"
    by (rule ext) (simp add: map_add_def update_conv' split: option.splits)
  then show ?case using Cons.IH [of "AList.update k v p"] a by simp
qed

lemma merge_props_update:
  assumes "distinct (map fst p)"
  shows "merge_props p (AList.update k x p) = AList.update k x p"
proof (cases "k \<in> fst ` set p")
  case False
  then have "AList.update k x p = p @ [(k, x)]" by (induction p) auto
  then show ?thesis using merge_props_self [OF assms] by (simp add: merge_props_def)
next
  case True
  let ?q = "AList.update k x p"
  have dq: "distinct (map fst ?q)" using assms by (rule distinct_update)
  have kq: "map fst ?q = map fst p" using True by (simp add: update_keys)
  then have sub: "fst ` set ?q \<subseteq> fst ` set p" by (metis list.set_map order_refl)
  have keys: "map fst (merge_props p ?q) = map fst ?q"
    unfolding merge_props_def using map_fst_fold_update [OF sub] kq by simp
  have "map_of (merge_props p ?q) = map_of p ++ map_of ?q"
    unfolding merge_props_def by (simp add: map_of_fold_update map_of_rev_distinct [OF dq])
  also have "\<dots> = map_of ?q"
  proof (rule ext)
    fix j show "(map_of p ++ map_of ?q) j = map_of ?q j"
      by (cases "map_of ?q j") (auto simp add: map_add_def update_conv' split: if_splits)
  qed
  finally have maps: "map_of (merge_props p ?q) = map_of ?q" .
  have "distinct (map fst (merge_props p ?q))" using keys dq by simp
  then show ?thesis using keys maps by (rule alist_eqI)
qed

section \<open>Facts about the keys of a parsed path\<close>

lemma scan_keys_length_le:
  "k \<in> set (scan_keys s) \<Longrightarrow> length k \<le> length s"
proof (induction s arbitrary: k rule: scan_keys.induct)
  case 1
  then show ?case by simp
next
  case (2 c cs)
  show ?case
  proof (cases "is_special c")
    case False
    then consider "k = c # takeWhile (\<lambda>x. \<not> is_special x) cs"
      | "k \<in> set (scan_keys (dropWhile (\<lambda>x. \<not> is_special x) cs))"
      using "2.prems" by auto
    then show ?thesis
    proof cases
      case 1
      then show ?thesis by (simp add: length_takeWhile_le)
    next
      case 2
      then have "length k \<le> length (dropWhile (\<lambda>x. \<not> is_special x) cs)"
        using "2.IH"(1) False by auto
      then show ?thesis
        using length_dropWhile_le [of "\<lambda>x. \<not> is_special x" cs] by simp
    qed
  next
    case True
    show ?thesis
    proof (cases "if c = CHR ''['' then bracket_key cs else None")
      case None
      then have "k = [] \<or> k \<in> set (scan_keys cs)"
        using "2.prems" True by (auto split: if_splits)
      then show ?thesis
      proof
        assume "k = []" then show ?thesis by simp
      next
        assume "k \<in> set (scan_keys cs)"
        then have "length k \<le> length cs"
          using "2.IH"(2,3) True None by (cases "empty_key_here (c # cs)") auto
        then show ?thesis by simp
      qed
    next
      case (Some a)
      obtain key rest where a: "a = (key, rest)" by (cases a)
      have bk: "bracket_key cs = Some (key, rest)" using Some a by (simp split: if_splits)
      have "k = key \<or> k \<in> set (scan_keys rest)"
        using "2.prems" True Some a by auto
      then show ?thesis
      proof
        assume "k = key" then show ?thesis using bracket_key_length [OF bk] by simp
      next
        assume "k \<in> set (scan_keys rest)"
        then have "length k \<le> length rest"
          using "2.IH"(4) True Some a by auto
        then show ?thesis using bracket_key_length [OF bk] by simp
      qed
    qed
  qed
qed

lemma scan_keys_length_less:
  assumes "k \<in> set (scan_keys s)" and "\<exists>c \<in> set s. is_special c"
  shows "length k < length s"
proof (cases s)
  case Nil
  then show ?thesis using assms by simp
next
  case (Cons c cs)
  show ?thesis
  proof (cases "is_special c")
    case False
    then consider "k = c # takeWhile (\<lambda>x. \<not> is_special x) cs"
      | "k \<in> set (scan_keys (dropWhile (\<lambda>x. \<not> is_special x) cs))"
      using assms(1) Cons by auto
    then show ?thesis
    proof cases
      case 1
      have "\<exists>x \<in> set cs. is_special x" using assms(2) Cons False by auto
      then have "takeWhile (\<lambda>x. \<not> is_special x) cs \<noteq> cs"
        by (auto simp add: takeWhile_eq_all_conv)
      then have "length (takeWhile (\<lambda>x. \<not> is_special x) cs) < length cs"
        using length_takeWhile_le [of "\<lambda>x. \<not> is_special x" cs]
        by (metis le_neq_implies_less takeWhile_eq_take take_all_iff order_refl)
      then show ?thesis using 1 Cons by simp
    next
      case 2
      then have "length k \<le> length (dropWhile (\<lambda>x. \<not> is_special x) cs)"
        by (rule scan_keys_length_le)
      then show ?thesis
        using length_dropWhile_le [of "\<lambda>x. \<not> is_special x" cs] Cons by simp
    qed
  next
    case True
    show ?thesis
    proof (cases "if c = CHR ''['' then bracket_key cs else None")
      case None
      then have "k = [] \<or> k \<in> set (scan_keys cs)"
        using assms(1) Cons True by (auto split: if_splits)
      then show ?thesis using scan_keys_length_le [of k cs] Cons by auto
    next
      case (Some a)
      obtain key rest where a: "a = (key, rest)" by (cases a)
      have bk: "bracket_key cs = Some (key, rest)" using Some a by (simp split: if_splits)
      have "k = key \<or> k \<in> set (scan_keys rest)"
        using assms(1) Cons True Some a by auto
      then show ?thesis
        using bracket_key_length [OF bk] scan_keys_length_le [of k rest] Cons by auto
    qed
  qed
qed

lemma reIsDeepProp_special: "reIsDeepProp s \<Longrightarrow> \<exists>c \<in> set s. is_special c"
  by (induction s) (auto simp add: is_special_def)

lemma stringToPath_key_differs:
  assumes "reIsDeepProp s" and "k \<in> set (stringToPath s)"
  shows "k \<noteq> s"
proof -
  have sp: "\<exists>c \<in> set s. is_special c" using assms(1) by (rule reIsDeepProp_special)
  then have "s \<noteq> []" by auto
  from assms(2) have "k = [] \<or> k \<in> set (scan_keys s)"
    by (auto simp add: stringToPath_def split: if_splits)
  then show ?thesis
    using scan_keys_length_less [OF _ sp, of k] \<open>s \<noteq> []\<close> by auto
qed

lemma digits_value_snoc:
  "digits_value (xs @ [c]) = 10 * digits_value xs + ((of_char c :: int) - 48)"
  by (simp add: digits_value_def)

lemma of_char_digit:
  assumes "d < 10"
  shows "(of_char (char_of (48 + d)) :: int) = 48 + int d"
proof -
  have n: "(of_char (char_of (48 + d)) :: nat) = 48 + d" using assms by simp
  have "(of_char (char_of (48 + d)) :: int) = int (of_char (char_of (48 + d)))"
    by (simp only: of_nat_of_char)
  also have "\<dots> = int (48 + d)" by (simp only: n)
  finally show ?thesis by simp
qed

lemma digits_value_decimal: "digits_value (decimal n) = int n"
proof (induction n rule: decimal.induct)
  case (1 n)
  show ?case
  proof (cases "n < 10")
    case True
    then have "(of_char (char_of (48 + n) :: char) :: int) = 48 + int n"
      by (rule of_char_digit)
    then show ?thesis using True
      by (subst decimal.simps) (simp add: digits_value_def)
  next
    case False
    have "n mod 10 < 10" by simp
    then have c: "(of_char (char_of (48 + n mod 10) :: char) :: int) = 48 + int (n mod 10)"
      by (rule of_char_digit)
    have "digits_value (decimal n) = 10 * int (n div 10) + int (n mod 10)"
      using False "1.IH" by (subst decimal.simps) (simp add: digits_value_snoc c)
    then show ?thesis by (simp add: zdiv_int zmod_int)
  qed
qed

lemma inj_decimal: "inj decimal"
  by (rule injI) (metis digits_value_decimal of_nat_eq_iff)

lemma string_props_keys: "map fst (string_props i s) = map decimal [i ..< i + length s]"
proof (induction s arbitrary: i)
  case Nil
  then show ?case by simp
next
  case (Cons c s)
  have "[i ..< i + length (c # s)] = i # [Suc i ..< Suc i + length s]"
    by (simp add: upt_rec)
  then show ?case using Cons [of "Suc i"] by simp
qed

section \<open>Facts about writing and reading along a list of keys\<close>

lemma distinct_spread [simp]: "distinct (map fst (spread fv))"
proof (cases fv)
  case (Str s)
  have "distinct (map decimal [0 ..< 0 + length s])"
    by (simp only: distinct_map) (simp add: inj_on_def inj_decimal [THEN injD])
  then show ?thesis using Str by (simp only: spread.simps string_props_keys)
qed simp_all

lemma isObject_not_nullish [simp]: "isObject obj \<Longrightarrow> \<not> nullish obj"
  by (cases obj) simp_all

lemma isObject_assignValue:
  "assignValue obj k x = Inr obj' \<Longrightarrow> isObject obj' = isObject obj"
  by (cases obj) (auto split: if_splits sum.splits)

lemma object_prop_update_same [simp]: "object_prop (AList.update k x ps) k = x"
  by (simp add: object_prop_def update_conv')

lemma object_prop_update_other [simp]:
  "j \<noteq> k \<Longrightarrow> object_prop (AList.update k x ps) j = object_prop ps j"
  by (simp add: object_prop_def update_conv')

lemma getProp_assignValue_same:
  "assignValue obj k x = Inr obj' \<Longrightarrow> isObject obj \<Longrightarrow> \<not> array_length_write obj k \<Longrightarrow>
     getProp obj' k = Some x"
  by (cases obj) (auto simp add: update_conv' split: if_splits)


lemma assignValue_again:
  "assignValue obj k x = Inr obj' \<Longrightarrow> assignValue obj' k x = Inr obj'"
proof (cases obj)
  case (Arr n ps)
  assume a: "assignValue obj k x = Inr obj'"
  show ?thesis
  proof (cases "k = ''length''")
    case True
    then obtain m where m: "to_length x = Inr m"
      and o: "obj' = Arr m (filter (\<lambda>(key, x). \<not> (array_index key \<and> int m \<le> digits_value key)) ps)"
      using a Arr by (auto split: sum.splits)
    show ?thesis using True m o by simp
  next
    case False
    then show ?thesis using a Arr by (auto simp add: max_def)
  qed
qed auto

lemma assignValue_replace:
  "assignValue obj k x = Inr o1 \<Longrightarrow> assignValue obj k y = Inr o2 \<Longrightarrow> \<not> array_length_write obj k \<Longrightarrow>
     assignValue o1 k y = Inr o2"
  by (cases obj) (auto simp add: max_def split: if_splits)

lemma array_length_write_assigned:
  "assignValue obj k x = Inr obj' \<Longrightarrow> array_length_write obj' k = array_length_write obj k"
  by (cases obj) (auto split: if_splits sum.splits)

lemma assignValue_object_array_length:
  "isObject x \<Longrightarrow> array_length_write obj k \<Longrightarrow> assignValue obj k x = Inl Unmodelled"
  by (cases obj; cases x) auto

lemma baseSet_walk_step:
  assumes "\<not> unsafe_key key" and "rest \<noteq> []" and "baseSet_walk nested (key # rest) v = Inr out"
  obtains objValue newValue assigned inner where
    "getProp nested key = Some objValue"
    "newValue = (if isObject objValue then objValue
                 else if isIndex (hd rest) then Arr 0 [] else Obj [])"
    "assignValue nested key newValue = Inr assigned"
    "baseSet_walk newValue rest v = Inr inner"
    "assignValue nested key inner = Inr out"
  using assms by (simp add: Let_def split: option.splits sum.splits)

declare baseSet_walk.simps(2) [simp del]

lemma baseSet_walk_unsafe [simp]:
  "unsafe_key key \<Longrightarrow> baseSet_walk nested (key # rest) v = Inr nested"
  by (simp add: baseSet_walk.simps(2))

lemma baseSet_walk_last [simp]:
  "\<not> unsafe_key key \<Longrightarrow> baseSet_walk nested [key] v = assignValue nested key v"
  by (simp add: baseSet_walk.simps(2))

lemma isObject_baseSet_walk:
  "baseSet_walk obj ks v = Inr obj' \<Longrightarrow> isObject obj' = isObject obj"
proof (induction ks arbitrary: obj obj')
  case Nil
  then show ?case by simp
next
  case (Cons k rest)
  show ?case
  proof (cases "unsafe_key k")
    case True
    then show ?thesis using Cons.prems by simp
  next
    case False
    show ?thesis
    proof (cases "rest = []")
      case True
      then show ?thesis using Cons.prems False by (simp add: isObject_assignValue)
    next
      case ne: False
      from False ne Cons.prems obtain inner where "assignValue obj k inner = Inr obj'"
        by (rule baseSet_walk_step)
      then show ?thesis by (rule isObject_assignValue)
    qed
  qed
qed

lemma baseSet_walk_idem:
  "isObject obj \<Longrightarrow> baseSet_walk obj ks v = Inr o1 \<Longrightarrow> baseSet_walk o1 ks v = Inr o1"
proof (induction ks arbitrary: obj o1)
  case Nil
  then show ?case by simp
next
  case (Cons k rest)
  show ?case
  proof (cases "unsafe_key k")
    case True
    then show ?thesis using Cons.prems by simp
  next
    case False
    show ?thesis
    proof (cases "rest = []")
      case True
      then show ?thesis using Cons.prems False by (simp add: assignValue_again)
    next
      case ne: False
      from False ne Cons.prems(2) obtain objValue newValue assigned inner where
        nv: "newValue = (if isObject objValue then objValue
                         else if isIndex (hd rest) then Arr 0 [] else Obj [])"
        and probe: "assignValue obj k newValue = Inr assigned"
        and deep: "baseSet_walk newValue rest v = Inr inner"
        and fin: "assignValue obj k inner = Inr o1"
        by (rule baseSet_walk_step)
      have nvo: "isObject newValue" by (simp add: nv)
      have io: "isObject inner" using isObject_baseSet_walk [OF deep] nvo by simp
      have nl: "\<not> array_length_write obj k"
        using assignValue_object_array_length [OF nvo, of obj k] probe by auto
      have g: "getProp o1 k = Some inner"
        using fin Cons.prems(1) nl by (rule getProp_assignValue_same)
      have again: "assignValue o1 k inner = Inr o1" using fin by (rule assignValue_again)
      have deep2: "baseSet_walk inner rest v = Inr inner" using nvo deep by (rule Cons.IH)
      show ?thesis
        using False ne g io again deep2 by (simp add: baseSet_walk.simps(2))
    qed
  qed
qed



lemma baseGet_walk_baseSet_walk:
  "isObject obj \<Longrightarrow> baseSet_walk obj ks v = Inr obj' \<Longrightarrow> ks \<noteq> [] \<Longrightarrow>
   \<not> list_ex unsafe_key ks \<Longrightarrow> last ks \<noteq> ''length'' \<or> (\<exists>m. v = Num m) \<Longrightarrow>
     baseGet_walk obj' ks = Some v"
proof (induction ks arbitrary: obj obj')
  case Nil
  then show ?case by simp
next
  case (Cons k rest)
  have safe: "\<not> unsafe_key k" using Cons.prems(4) by simp
  have oo: "isObject obj'" using isObject_baseSet_walk [OF Cons.prems(2)] Cons.prems(1) by simp
  show ?case
  proof (cases "rest = []")
    case True
    then have a: "assignValue obj k v = Inr obj'" using Cons.prems(2) safe by simp
    have "getProp obj' k = Some v"
    proof (cases "array_length_write obj k")
      case False
      show ?thesis using a Cons.prems(1) False by (rule getProp_assignValue_same)
    next
      case alw: True
      then obtain n ps where obj: "obj = Arr n ps" and k: "k = ''length''"
        by (cases obj) auto
      then obtain m where v: "v = Num m" using Cons.prems(5) True by auto
      show ?thesis using a obj k v
        by (auto simp add: in_length_range_def split: if_splits sum.splits)
    qed
    then show ?thesis using True oo by simp
  next
    case ne: False
    from safe ne Cons.prems(2) obtain objValue newValue assigned inner where
      nv: "newValue = (if isObject objValue then objValue
                       else if isIndex (hd rest) then Arr 0 [] else Obj [])"
      and probe: "assignValue obj k newValue = Inr assigned"
      and deep: "baseSet_walk newValue rest v = Inr inner"
      and fin: "assignValue obj k inner = Inr obj'"
      by (rule baseSet_walk_step)
    have nvo: "isObject newValue" by (simp add: nv)
    have nl: "\<not> array_length_write obj k"
      using assignValue_object_array_length [OF nvo, of obj k] probe by auto
    have g: "getProp obj' k = Some inner"
      using fin Cons.prems(1) nl by (rule getProp_assignValue_same)
    have "baseGet_walk inner rest = Some v"
      using nvo deep ne Cons.prems(4,5) by (intro Cons.IH) (simp_all add: ne)
    then show ?thesis using g oo by simp
  qed
qed


lemma baseSet_walk_top:
  assumes "baseSet_walk (Obj p) ks v = Inr r"
  shows "r = Obj p \<or> (\<exists>x. ks \<noteq> [] \<and> r = Obj (AList.update (hd ks) x p))"
proof (cases ks)
  case Nil
  then show ?thesis using assms by simp
next
  case (Cons k rest)
  show ?thesis
  proof (cases "unsafe_key k")
    case True
    then show ?thesis using assms Cons by simp
  next
    case False
    show ?thesis
    proof (cases "rest = []")
      case True
      then show ?thesis using assms Cons False by auto
    next
      case ne: False
      from False ne assms [unfolded Cons] obtain inner where "assignValue (Obj p) k inner = Inr r"
        by (rule baseSet_walk_step)
      then show ?thesis using Cons by auto
    qed
  qed
qed


lemma castPath_after_write:
  assumes "baseSet_walk (Obj p) (castPath n (Obj p)) v = Inr (Obj p')"
  shows "castPath n (Obj p') = castPath n (Obj p)"
proof (cases "isKey n (Obj p)")
  case True
  then have ks: "castPath n (Obj p) = [n]" by (simp add: castPath_def)
  have "p' = p \<or> (\<exists>x. p' = AList.update n x p)"
    using baseSet_walk_top [OF assms] ks by auto
  then have "hasOwn (Obj p) n \<Longrightarrow> hasOwn (Obj p') n"
    by (auto simp add: update_conv')
  then have "isKey n (Obj p')" using True unfolding isKey_def by blast
  then show ?thesis using ks by (simp add: castPath_def)
next
  case False
  then have deep: "reIsDeepProp n" and own: "\<not> hasOwn (Obj p) n"
    and ks: "castPath n (Obj p) = stringToPath n"
    by (simp_all add: isKey_def castPath_def)
  have plain: "\<not> reIsPlainProp n" using False by (simp add: isKey_def)
  from baseSet_walk_top [OF assms] ks
  have "p' = p \<or> (\<exists>x. stringToPath n \<noteq> [] \<and> p' = AList.update (hd (stringToPath n)) x p)"
    by auto
  then have "\<not> hasOwn (Obj p') n"
  proof
    assume "p' = p" then show ?thesis using own by simp
  next
    assume "\<exists>x. stringToPath n \<noteq> [] \<and> p' = AList.update (hd (stringToPath n)) x p"
    then obtain x where ne: "stringToPath n \<noteq> []"
      and p': "p' = AList.update (hd (stringToPath n)) x p" by blast
    have "hd (stringToPath n) \<noteq> n"
      using stringToPath_key_differs [OF deep] ne by simp
    then show ?thesis using own p' by (simp add: update_conv')
  qed
  then have "\<not> isKey n (Obj p')" using deep plain by (simp add: isKey_def)
  then show ?thesis using ks by (simp add: castPath_def)
qed

lemma baseSet_walk_Obj:
  "baseSet_walk (Obj p) ks v = Inr r \<Longrightarrow> \<exists>p'. r = Obj p'"
  using baseSet_walk_top [of p ks v r] by auto

lemma distinct_baseSet_walk:
  assumes "distinct (map fst p)" and "baseSet_walk (Obj p) ks v = Inr (Obj p')"
  shows "distinct (map fst p')"
  using baseSet_walk_top [OF assms(2)] assms(1) by (auto simp add: distinct_update)

text \<open>The field update is the walk of \<open>baseSet\<close> along the keys of the name, from the copy.\<close>

lemma on_field_value_change_walk:
  "on_field_value_change s (Data n v) =
     (case baseSet_walk (Obj (spread (fieldsValues s))) (field_keys s n) v of
        Inl e \<Rightarrow> Inl e
      | Inr written \<Rightarrow> Inr (s\<lparr>fieldsValues := written\<rparr>))"
proof (cases "baseSet_walk (Obj (spread (fieldsValues s))) (field_keys s n) v")
  case (Inl e)
  then show ?thesis
    by (simp add: on_field_value_change_def set_lodash_def baseSet_def field_keys_def)
next
  case (Inr written)
  let ?p = "spread (fieldsValues s)"
  obtain p' where w: "written = Obj p'" using baseSet_walk_Obj [OF Inr] by blast
  have d: "distinct (map fst ?p)" by simp
  have d': "distinct (map fst p')" using distinct_baseSet_walk [OF d Inr [unfolded w]] .
  have "merge_props ?p p' = p'"
    using baseSet_walk_top [OF Inr] w merge_props_self [OF d] merge_props_update [OF d] by auto
  then show ?thesis
    using Inr w d' by (simp add: on_field_value_change_def set_lodash_def baseSet_def field_keys_def)
qed

lemma on_field_value_change_twice:
  assumes "on_field_value_change s (Data n v) = Inr s1"
  shows "on_field_value_change s1 (Data n v) = Inr s1"
proof -
  let ?p = "spread (fieldsValues s)"
  from assms obtain written where w: "baseSet_walk (Obj ?p) (field_keys s n) v = Inr written"
    and s1: "s1 = s\<lparr>fieldsValues := written\<rparr>"
    by (auto simp add: on_field_value_change_walk split: sum.splits)
  obtain p' where p': "written = Obj p'" using baseSet_walk_Obj [OF w] by blast
  have d': "distinct (map fst p')" using distinct_baseSet_walk [OF _ w [unfolded p']] by simp
  have sp: "spread (fieldsValues s1) = p'" using s1 p' d' by simp
  have ks: "field_keys s1 n = field_keys s n"
    unfolding field_keys_def sp using castPath_after_write [of ?p n v p'] w p'
    by (simp add: field_keys_def)
  have "baseSet_walk (Obj p') (field_keys s n) v = Inr (Obj p')"
    using baseSet_walk_idem [of "Obj ?p" "field_keys s n" v written] w p' by simp
  then have "on_field_value_change s1 (Data n v) = Inr (s1\<lparr>fieldsValues := Obj p'\<rparr>)"
    by (simp add: on_field_value_change_walk sp ks)
  then show ?thesis using s1 p' by simp
qed

section \<open>The field update: frame and idempotence\<close>

lemma reducer_field_returns:
  "reducer s \<lparr>type = ON_FIELD_VALUE_CHANGE, payload = p\<rparr> = (Inr (NextState s'), out)
     \<longleftrightarrow> on_field_value_change s p = Inr s' \<and> out = []"
  by (auto simp add: reducer_ON_FIELD_VALUE_CHANGE split: sum.splits)


lemma on_field_value_change_frame:
  "on_field_value_change s p = Inr s' \<Longrightarrow>
     errors s' = errors s \<and> loadingInitialData s' = loadingInitialData s"
  by (auto simp add: on_field_value_change_def split: sum.splits)

text \<open>
  C10. For every state \<open>s\<close>, name \<open>n\<close> and value \<open>v\<close>: every state the reducer returns for
  \<open>ON_FIELD_VALUE_CHANGE {n, v}\<close> has the \<open>errors\<close> and the \<open>loadingInitialData\<close> of \<open>s\<close>.
  The call either returns a state or gives none: line 68 throws when the write sets an
  invalid array length, and a write into a built-in is left open. For
  \<open>ON_ERRORS_CHANGE {n, v}\<close> the reducer returns a state, which has the \<open>fieldsValues\<close>
  and the \<open>loadingInitialData\<close> of \<open>s\<close>.
\<close>

theorem field_actions_frame:
  "(\<forall>s' out. reducer s \<lparr>type = ON_FIELD_VALUE_CHANGE, payload = Data n v\<rparr> = (Inr (NextState s'), out)
        \<longrightarrow> errors s' = errors s \<and> loadingInitialData s' = loadingInitialData s)
   \<and> ((\<exists>s'. reducer s \<lparr>type = ON_FIELD_VALUE_CHANGE, payload = Data n v\<rparr> = (Inr (NextState s'), []))
        \<or> (\<exists>e. reducer s \<lparr>type = ON_FIELD_VALUE_CHANGE, payload = Data n v\<rparr> = (Inl e, [])))
   \<and> (\<exists>s'. reducer s \<lparr>type = ON_ERRORS_CHANGE, payload = Data n v\<rparr> = (Inr (NextState s'), [])
         \<and> fieldsValues s' = fieldsValues s
         \<and> loadingInitialData s' = loadingInitialData s)"
proof (intro conjI allI impI)
  fix s' out
  assume "reducer s \<lparr>type = ON_FIELD_VALUE_CHANGE, payload = Data n v\<rparr> = (Inr (NextState s'), out)"
  then have "on_field_value_change s (Data n v) = Inr s'" by (simp add: reducer_field_returns)
  then show "errors s' = errors s" "loadingInitialData s' = loadingInitialData s"
    using on_field_value_change_frame by blast+
next
  show "(\<exists>s'. reducer s \<lparr>type = ON_FIELD_VALUE_CHANGE, payload = Data n v\<rparr> = (Inr (NextState s'), []))
        \<or> (\<exists>e. reducer s \<lparr>type = ON_FIELD_VALUE_CHANGE, payload = Data n v\<rparr> = (Inl e, []))"
    by (cases "on_field_value_change s (Data n v)") (simp_all add: reducer_ON_FIELD_VALUE_CHANGE)
next
  show "\<exists>s'. reducer s \<lparr>type = ON_ERRORS_CHANGE, payload = Data n v\<rparr> = (Inr (NextState s'), [])
         \<and> fieldsValues s' = fieldsValues s
         \<and> loadingInitialData s' = loadingInitialData s"
    by (simp add: reducer_ON_ERRORS_CHANGE on_errors_change_def)
qed

theorem field_actions_frame_witness:
  "reducer \<lparr>errors = [(''city'', Str ''required'')], fieldsValues = Obj [(''name'', Str ''Ada'')],
             loadingInitialData = True\<rparr>
      \<lparr>type = ON_FIELD_VALUE_CHANGE, payload = Data ''address.city'' (Str ''Oslo'')\<rparr>
    = (Inr (NextState
         \<lparr>errors = [(''city'', Str ''required'')],
          fieldsValues = Obj [(''name'', Str ''Ada''), (''address'', Obj [(''city'', Str ''Oslo'')])],
          loadingInitialData = True\<rparr>), [])
   \<and> errors \<lparr>errors = [(''city'', Str ''required'')],
          fieldsValues = Obj [(''name'', Str ''Ada''), (''address'', Obj [(''city'', Str ''Oslo'')])],
          loadingInitialData = True\<rparr> = [(''city'', Str ''required'')]"
proof -
  let ?s = "\<lparr>errors = [(''city'', Str ''required'')], fieldsValues = Obj [(''name'', Str ''Ada'')],
             loadingInitialData = True\<rparr>"
  let ?s' = "\<lparr>errors = [(''city'', Str ''required'')],
          fieldsValues = Obj [(''name'', Str ''Ada''), (''address'', Obj [(''city'', Str ''Oslo'')])],
          loadingInitialData = True\<rparr>"
  have r: "reducer ?s \<lparr>type = ON_FIELD_VALUE_CHANGE, payload = Data ''address.city'' (Str ''Oslo'')\<rparr>
             = (Inr (NextState ?s'), [])"
    by code_simp
  from field_actions_frame [of ?s "''address.city''" "Str ''Oslo''"] r
  have "errors ?s' = errors ?s" by blast
  then show ?thesis using r by simp
qed

text \<open>
  C9. For every state \<open>s\<close>, name \<open>n\<close> and value \<open>v\<close>: when the reducer returns a state \<open>s1\<close>
  for the action \<open>ON_FIELD_VALUE_CHANGE {n, v}\<close>, then applied to \<open>s1\<close> with the same
  action it returns \<open>s1\<close> again. When the first call throws there is no state to apply
  the action to a second time.
\<close>

theorem field_value_change_idempotent:
  "reducer s \<lparr>type = ON_FIELD_VALUE_CHANGE, payload = Data n v\<rparr> = (Inr (NextState s1), out)
     \<Longrightarrow> reducer s1 \<lparr>type = ON_FIELD_VALUE_CHANGE, payload = Data n v\<rparr> = (Inr (NextState s1), [])"
proof -
  assume "reducer s \<lparr>type = ON_FIELD_VALUE_CHANGE, payload = Data n v\<rparr> = (Inr (NextState s1), out)"
  then have "on_field_value_change s (Data n v) = Inr s1" by (simp add: reducer_field_returns)
  then have "on_field_value_change s1 (Data n v) = Inr s1" by (rule on_field_value_change_twice)
  then show ?thesis by (simp add: reducer_field_returns)
qed

theorem field_value_change_idempotent_witness:
  "reducer \<lparr>errors = [], fieldsValues = Obj [(''items'', Arr 1 [(''0'', Str ''a'')])],
             loadingInitialData = False\<rparr>
      \<lparr>type = ON_FIELD_VALUE_CHANGE, payload = Data ''items[2].name'' (Str ''c'')\<rparr>
    = (Inr (NextState
         \<lparr>errors = [],
          fieldsValues = Obj [(''items'', Arr 3 [(''0'', Str ''a''), (''2'', Obj [(''name'', Str ''c'')])])],
          loadingInitialData = False\<rparr>), [])
   \<and> reducer \<lparr>errors = [],
          fieldsValues = Obj [(''items'', Arr 3 [(''0'', Str ''a''), (''2'', Obj [(''name'', Str ''c'')])])],
          loadingInitialData = False\<rparr>
      \<lparr>type = ON_FIELD_VALUE_CHANGE, payload = Data ''items[2].name'' (Str ''c'')\<rparr>
    = (Inr (NextState
         \<lparr>errors = [],
          fieldsValues = Obj [(''items'', Arr 3 [(''0'', Str ''a''), (''2'', Obj [(''name'', Str ''c'')])])],
          loadingInitialData = False\<rparr>), [])"
proof -
  have r: "reducer \<lparr>errors = [], fieldsValues = Obj [(''items'', Arr 1 [(''0'', Str ''a'')])],
             loadingInitialData = False\<rparr>
      \<lparr>type = ON_FIELD_VALUE_CHANGE, payload = Data ''items[2].name'' (Str ''c'')\<rparr>
    = (Inr (NextState
         \<lparr>errors = [],
          fieldsValues = Obj [(''items'', Arr 3 [(''0'', Str ''a''), (''2'', Obj [(''name'', Str ''c'')])])],
          loadingInitialData = False\<rparr>), [])"
    by code_simp
  show ?thesis using r field_value_change_idempotent [OF r] by simp
qed

section \<open>The field update: what is written and what is kept\<close>










section \<open>The hook accessor: value and validation\<close>









section \<open>Form submission builds the values\<close>

lemma set_lodash_Obj:
  "set_lodash (Obj p) key v = baseSet_walk (Obj p) (castPath key (Obj p)) v"
  by (simp add: set_lodash_def baseSet_def)

lemma set_entries_Obj:
  "distinct (map fst p) \<Longrightarrow> set_entries (Obj p) form = Inr w \<Longrightarrow>
     \<exists>p'. w = Obj p' \<and> distinct (map fst p')"
proof (induction form arbitrary: p)
  case Nil
  then show ?case by auto
next
  case (Cons entry form)
  obtain key v where entry: "entry = (key, v)" by (cases entry)
  from Cons.prems(2) obtain written where
    w: "baseSet_walk (Obj p) (castPath key (Obj p)) v = Inr written"
    and rest: "set_entries written form = Inr w"
    by (auto simp add: entry set_lodash_Obj split: sum.splits)
  obtain p' where p': "written = Obj p'" using baseSet_walk_Obj [OF w] by blast
  have "distinct (map fst p')" using Cons.prems(1) w [unfolded p'] by (rule distinct_baseSet_walk)
  then show ?case using rest [unfolded p'] by (rule Cons.IH)
qed

lemma set_entries_append:
  "set_entries obj (form @ [(key, v)]) =
     (case set_entries obj form of
        Inl e \<Rightarrow> Inl e
      | Inr w \<Rightarrow> set_lodash w key v)"
  by (induction obj form rule: set_entries.induct) (simp_all split: sum.splits)

text \<open>
  Typing the entries one after the other into a form whose \<open>fieldsValues\<close> are \<open>p\<close> ends
  as writing them into \<open>p\<close> with \<open>set\<close> ends.
\<close>

lemma apply_actions_field_actions:
  "distinct (map fst p) \<Longrightarrow>
     apply_actions (s\<lparr>fieldsValues := Obj p\<rparr>) (field_actions form) =
       (case set_entries (Obj p) form of
          Inl e \<Rightarrow> Inl e
        | Inr values \<Rightarrow> Inr (NextState (s\<lparr>fieldsValues := values\<rparr>)))"
proof (induction form arbitrary: p)
  case Nil
  then show ?case by (simp add: field_actions_def)
next
  case (Cons entry form)
  obtain key v where entry: "entry = (key, v)" by (cases entry)
  let ?s = "s\<lparr>fieldsValues := Obj p\<rparr>"
  have sp: "spread (Obj p) = p" using Cons.prems by (simp add: distinct_clearjunk_id)
  have step: "on_field_value_change ?s (Data key v) =
     (case set_lodash (Obj p) key v of
        Inl e \<Rightarrow> Inl e
      | Inr written \<Rightarrow> Inr (s\<lparr>fieldsValues := written\<rparr>))"
    using Cons.prems
    by (simp add: on_field_value_change_walk field_keys_def distinct_clearjunk_id set_lodash_Obj
        split: sum.splits)
  have fa: "field_actions ((key, v) # form) =
     \<lparr>type = ON_FIELD_VALUE_CHANGE, payload = Data key v\<rparr> # field_actions form"
    by (simp add: field_actions_def)
  show ?case
  proof (cases "set_lodash (Obj p) key v")
    case (Inl e)
    then show ?thesis
      by (simp add: fa entry reducer_ON_FIELD_VALUE_CHANGE step)
  next
    case (Inr written)
    then obtain p' where p': "written = Obj p'"
      using baseSet_walk_Obj [of p "castPath key (Obj p)" v written] by (auto simp add: set_lodash_Obj)
    have "distinct (map fst p')"
      using Cons.prems Inr [unfolded p' set_lodash_Obj] by (rule distinct_baseSet_walk)
    then have "apply_actions (s\<lparr>fieldsValues := Obj p'\<rparr>) (field_actions form) =
       (case set_entries (Obj p') form of
          Inl e \<Rightarrow> Inl e
        | Inr values \<Rightarrow> Inr (NextState (s\<lparr>fieldsValues := values\<rparr>)))"
      by (rule Cons.IH)
    then show ?thesis
      by (simp add: fa entry reducer_ON_FIELD_VALUE_CHANGE step Inr p')
  qed
qed

lemma get_lodash_set_lodash:
  assumes w: "set_lodash (Obj p) key v = Inr values"
    and ne: "castPath key (Obj p) \<noteq> []"
    and safe: "\<not> list_ex unsafe_key (castPath key (Obj p))"
    and len: "last (castPath key (Obj p)) \<noteq> ''length'' \<or> (\<exists>m. v = Num m)"
  shows "get_lodash values key = Some v"
proof -
  from w have b: "baseSet_walk (Obj p) (castPath key (Obj p)) v = Inr values"
    by (simp add: set_lodash_Obj)
  obtain p' where p': "values = Obj p'" using baseSet_walk_Obj [OF b] by blast
  have ks: "castPath key (Obj p') = castPath key (Obj p)"
    using castPath_after_write [of p key v p'] b p' by simp
  have "baseGet_walk values (castPath key (Obj p)) = Some v"
    using _ b ne safe len by (rule baseGet_walk_baseSet_walk) simp
  then show ?thesis
    using ne ks p' by (simp add: get_lodash_def baseGet_def)
qed

text \<open>
  C6, as the code has it. For every list of entries: where writing them with \<open>set\<close> comes
  to its end, the handler persists the event, prevents the default and calls
  \<open>onSubmit\<close> with the values built, and these are the \<open>fieldsValues\<close> that typing the
  same entries into the empty form leaves; where a call of \<open>set\<close> stops, the handler
  stops there, \<open>onSubmit\<close> is not called, and typing the same entries stops the same
  way. And the entry written last is read back at its name where \<open>set\<close> writes all its
  keys.
\<close>

theorem onSubmit_builds_values:
  "(\<forall>values. submitted_values form = Inr values \<longrightarrow>
        onSubmit_handler form = ([Persist, PreventDefault, OnSubmit values], None)
      \<and> apply_actions initialState (field_actions form)
          = Inr (NextState (initialState\<lparr>fieldsValues := values\<rparr>)))
   \<and> (\<forall>e. submitted_values form = Inl e \<longrightarrow>
        onSubmit_handler form = ([Persist, PreventDefault], Some e)
      \<and> apply_actions initialState (field_actions form) = Inl e)
   \<and> (\<forall>before values key v.
        submitted_values form = Inr before
      \<and> submitted_values (form @ [(key, v)]) = Inr values
      \<and> castPath key before \<noteq> [] \<and> \<not> list_ex unsafe_key (castPath key before)
      \<and> (last (castPath key before) \<noteq> ''length'' \<or> (\<exists>m. v = Num m))
      \<longrightarrow> get_lodash values key = Some v)"
proof -
  have init: "initialState = initialState\<lparr>fieldsValues := Obj []\<rparr>"
    by (simp add: initialState_def)
  have chain: "apply_actions initialState (field_actions form) =
       (case submitted_values form of
          Inl e \<Rightarrow> Inl e
        | Inr values \<Rightarrow> Inr (NextState (initialState\<lparr>fieldsValues := values\<rparr>)))"
    unfolding submitted_values_def
    using apply_actions_field_actions [of "[]" initialState form] init by simp
  have last_entry: "get_lodash built key = Some v"
    if b: "submitted_values form = Inr before"
      and a: "submitted_values (form @ [(key, v)]) = Inr built"
      and k: "castPath key before \<noteq> []" "\<not> list_ex unsafe_key (castPath key before)"
        "last (castPath key before) \<noteq> ''length'' \<or> (\<exists>m. v = Num m)"
    for before built key v
  proof -
    obtain p where p: "before = Obj p"
      using set_entries_Obj [of "[]" form before] b by (auto simp add: submitted_values_def)
    have "set_lodash (Obj p) key v = Inr built"
      using a b by (simp add: submitted_values_def set_entries_append p)
    then show ?thesis using k [unfolded p] by (rule get_lodash_set_lodash)
  qed
  show ?thesis
    using chain last_entry by (simp add: onSubmit_handler_def)
qed

theorem onSubmit_builds_values_witness:
  "submitted_values [(''name'', Str ''Ada''), (''address.city'', Str ''Oslo'')]
     = Inr (Obj [(''name'', Str ''Ada''), (''address'', Obj [(''city'', Str ''Oslo'')])])
   \<and> onSubmit_handler [(''name'', Str ''Ada''), (''address.city'', Str ''Oslo'')]
     = ([Persist, PreventDefault,
         OnSubmit (Obj [(''name'', Str ''Ada''), (''address'', Obj [(''city'', Str ''Oslo'')])])], None)
   \<and> apply_actions initialState (field_actions [(''name'', Str ''Ada''), (''address.city'', Str ''Oslo'')])
     = Inr (NextState \<lparr>errors = [],
              fieldsValues = Obj [(''name'', Str ''Ada''), (''address'', Obj [(''city'', Str ''Oslo'')])],
              loadingInitialData = False\<rparr>)"
proof -
  have v: "submitted_values [(''name'', Str ''Ada''), (''address.city'', Str ''Oslo'')]
     = Inr (Obj [(''name'', Str ''Ada''), (''address'', Obj [(''city'', Str ''Oslo'')])])"
    by code_simp
  from onSubmit_builds_values [of "[(''name'', Str ''Ada''), (''address.city'', Str ''Oslo'')]",
         THEN conjunct1, rule_format, OF v]
  show ?thesis using v by (simp add: initialState_def)
qed

text \<open>
  C6 as it is stated fails: the entries \<open>a[0] = x\<close> and \<open>a.length = -1\<close> make the second
  \<open>set\<close> throw a \<open>RangeError\<close> (the length of an array cannot be \<open>-1\<close>), and \<open>onSubmit\<close>
  is not called.
\<close>

theorem onSubmit_counterexample:
  "onSubmit_handler [(''a[0]'', Str ''x''), (''a.length'', Str ''-1'')]
     = ([Persist, PreventDefault], Some RangeError)"
  by code_simp

end
